theory Spec2Isabelle
  imports Main "HOL-Library.AList" "HOL-Library.Sublist"
begin

section \<open>Python values used by the tool\<close>

text \<open>
  The exceptions the modelled functions can raise. \<open>ReError\<close> stands for what
  \<^verbatim>\<open>re.sub\<close> raises on a replacement template it rejects (\<^verbatim>\<open>re.error\<close>, and
  \<^verbatim>\<open>IndexError\<close> for an unknown group name); \<open>RecursionError\<close> is raised by a call
  made when the interpreter's recursion limit is reached.
\<close>

datatype py_error = KeyError | FileNotFoundError | JSONDecodeError | ReError | RecursionError

text \<open>
  Truthiness of an optional string or list: \<^verbatim>\<open>None\<close>, \<^verbatim>\<open>''\<close> and \<^verbatim>\<open>[]\<close> are false.
\<close>

fun truthy :: "'a list option \<Rightarrow> bool" where
  "truthy None = False"
| "truthy (Some []) = False"
| "truthy (Some (x # xs)) = True"

text \<open>An f-string field holding an optional string: \<^verbatim>\<open>None\<close> prints as \<^verbatim>\<open>None\<close>.\<close>

fun fmt :: "string option \<Rightarrow> string" where
  "fmt None = ''None''"
| "fmt (Some s) = s"

text \<open>\<^verbatim>\<open>str\<close> of an integer, as an f-string field prints it.\<close>

definition digit_char :: "nat \<Rightarrow> char" where
  "digit_char d = ''0123456789'' ! d"

function str_nat :: "nat \<Rightarrow> string" where
  "str_nat n = (if n < 10 then [digit_char n] else str_nat (n div 10) @ [digit_char (n mod 10)])"
  by pat_completeness auto
termination
  by (relation "measure (\<lambda>n. n)") auto

declare str_nat.simps [simp del]

definition str_int :: "int \<Rightarrow> string" where
  "str_int i = (if i < 0 then CHR ''-'' # str_nat (nat (- i)) else str_nat (nat i))"

section \<open>The flow definition\<close>

text \<open>
  The flow definition is the JSON object Twilio returns, read as nested dictionaries. A
  key that may be missing is an optional field (\<open>None\<close>: the key is absent); a key that
  is present holds a value of the type the flow schema gives it (a string, or a list of
  dictionaries).
\<close>

record condition =
  c_friendly_name :: "string option"

record transition =
  t_event :: "string option"
  t_conditions :: "condition list option"
  t_next :: "string option"

record state =
  s_name :: "string option"
  s_type :: "string option"
  s_transitions :: "transition list option"

record flow_definition =
  fd_states :: "state list option"

text \<open>\<^verbatim>\<open>state.get('transitions', [])\<close>\<close>

definition get_transitions :: "state \<Rightarrow> transition list" where
  "get_transitions st = (case s_transitions st of None \<Rightarrow> [] | Some ts \<Rightarrow> ts)"

subsection \<open>trigger\_type.py\<close>

datatype TriggerType = INCOMING_MESSAGE | INCOMING_CALL | REST_API | SUBFLOW

fun trigger_value :: "TriggerType \<Rightarrow> string" where
  "trigger_value INCOMING_MESSAGE = ''incomingMessage''"
| "trigger_value INCOMING_CALL = ''incomingCall''"
| "trigger_value REST_API = ''incomingRequest''"
| "trigger_value SUBFLOW = ''incomingParent''"

section \<open>utils.py: get\_first\_state\<close>

text \<open>The default \<^verbatim>\<open>trigger_state = {"transitions": {}}\<close>: no name, no type, nothing to iterate.\<close>

definition default_trigger_state :: state where
  "default_trigger_state = \<lparr>s_name = None, s_type = None, s_transitions = Some []\<rparr>"

text \<open>
  The first loop: \<^verbatim>\<open>state['type']\<close> is read for each state until the first trigger
  state, where the loop breaks; a state without the key raises \<^verbatim>\<open>KeyError\<close>.
\<close>

fun find_trigger_state :: "state list \<Rightarrow> py_error + state" where
  "find_trigger_state [] = Inr default_trigger_state"
| "find_trigger_state (st # rest) =
     (case s_type st of
        None \<Rightarrow> Inl KeyError
      | Some ty \<Rightarrow> if ty = ''trigger'' then Inr st else find_trigger_state rest)"

text \<open>The second loop: the \<^verbatim>\<open>next\<close> of the first transition whose event is the trigger value.\<close>

fun find_first_state :: "string \<Rightarrow> transition list \<Rightarrow> string option" where
  "find_first_state v [] = None"
| "find_first_state v (t # ts) =
     (if t_event t = Some v then t_next t else find_first_state v ts)"

definition get_first_state :: "flow_definition \<Rightarrow> TriggerType \<Rightarrow> py_error + string option" where
  "get_first_state fd tt =
     (case fd_states fd of
        None \<Rightarrow> Inl KeyError
      | Some sts \<Rightarrow>
          (case find_trigger_state sts of
             Inl e \<Rightarrow> Inl e
           | Inr trigger_state \<Rightarrow>
               Inr (find_first_state (trigger_value tt) (get_transitions trigger_state))))"

section \<open>The state map\<close>

text \<open>
  \<^verbatim>\<open>{state['name']: state for state in flow_definition['states']}\<close>: a dictionary, kept
  as an association list in insertion order; a later state of the same name replaces
  the earlier one, and a state without a name raises \<^verbatim>\<open>KeyError\<close>.
\<close>

type_synonym state_map = "(string \<times> state) list"

fun build_state_map :: "state list \<Rightarrow> state_map \<Rightarrow> py_error + state_map" where
  "build_state_map [] m = Inr m"
| "build_state_map (st # rest) m =
     (case s_name st of
        None \<Rightarrow> Inl KeyError
      | Some n \<Rightarrow> build_state_map rest (AList.update n st m))"

section \<open>output\_states.py\<close>

text \<open>
  \<open>all_states\<close> is the result dictionary, as the list of its items in insertion order.
  \<open>traverse_transitions_os\<close> is the \<^verbatim>\<open>for transition in ...\<close> loop of \<open>traverse_state\<close>.
  These two functions are the traversal as it runs while the interpreter's recursion
  limit is not reached; \<open>traverse_state_os_bounded\<close> below is the same closure with the
  limit.
\<close>

type_synonym all_states = "(string \<times> string) list"

function traverse_state_os :: "state_map \<Rightarrow> string \<Rightarrow> all_states \<Rightarrow> all_states"
  and traverse_transitions_os :: "state_map \<Rightarrow> transition list \<Rightarrow> all_states \<Rightarrow> all_states"
where
  "traverse_state_os sm state_name acc =
     (if state_name \<in> fst ` set acc \<or> map_of sm state_name = None then acc
      else traverse_transitions_os sm (get_transitions (the (map_of sm state_name)))
             (acc @ [(state_name, state_name)]))"
| "traverse_transitions_os sm [] acc = acc"
| "traverse_transitions_os sm (t # ts) acc =
     (if truthy (t_next t)
      then traverse_transitions_os sm ts (traverse_state_os sm (the (t_next t)) acc)
      else traverse_transitions_os sm ts acc)"
  by pat_completeness auto

lemma traverse_os_dom_mono:
  "traverse_state_os_traverse_transitions_os_dom (Inl (sm, n, acc)) \<Longrightarrow>
     fst ` set acc \<subseteq> fst ` set (traverse_state_os sm n acc)"
  "traverse_state_os_traverse_transitions_os_dom (Inr (sm, ts, acc)) \<Longrightarrow>
     fst ` set acc \<subseteq> fst ` set (traverse_transitions_os sm ts acc)"
proof (induction sm n acc and sm ts acc rule: traverse_state_os_traverse_transitions_os.pinduct)
  case (1 sm state_name acc)
  then show ?case
    by (auto simp: traverse_state_os.psimps)
next
  case (2 sm acc)
  then show ?case
    by (simp add: traverse_transitions_os.psimps)
next
  case (3 sm t ts acc)
  show ?case
  proof (cases "truthy (t_next t)")
    case True
    with 3 show ?thesis
      by (simp add: traverse_transitions_os.psimps)
  next
    case False
    with 3 show ?thesis
      by (simp add: traverse_transitions_os.psimps)
  qed
qed

definition unvisited :: "state_map \<Rightarrow> string set \<Rightarrow> nat" where
  "unvisited sm vs = card (fst ` set sm - vs)"

lemma unvisited_mono: "vs \<subseteq> vs' \<Longrightarrow> unvisited sm vs' \<le> unvisited sm vs"
  unfolding unvisited_def by (intro card_mono) auto

lemma unvisited_insert:
  assumes "map_of sm n \<noteq> None" "n \<notin> vs"
  shows "unvisited sm (insert n vs) < unvisited sm vs"
proof -
  from assms(1) have "n \<in> fst ` set sm"
    by (metis map_of_eq_None_iff)
  with assms(2) have "fst ` set sm - insert n vs \<subset> fst ` set sm - vs"
    by auto
  then show ?thesis
    unfolding unvisited_def by (intro psubset_card_mono) auto
qed

termination traverse_state_os
proof (relation "inv_image (less_than <*lex*> less_than)
    (\<lambda>x. case x of
       Inl (sm, n, acc) \<Rightarrow> (unvisited sm (fst ` set acc), 0)
     | Inr (sm, ts, acc) \<Rightarrow> (unvisited sm (fst ` set acc), Suc (length ts)))", goal_cases)
  case 1
  show ?case
    by (intro wf_inv_image wf_lex_prod wf_less_than)
next
  case (2 sm state_name acc)
  then have "unvisited sm (insert state_name (fst ` set acc)) < unvisited sm (fst ` set acc)"
    by (intro unvisited_insert) auto
  then show ?case by simp
next
  case (3 sm t ts acc)
  then show ?case by simp
next
  case (4 sm t ts acc)
  from traverse_os_dom_mono(1)[OF 4(2)]
  have "unvisited sm (fst ` set (traverse_state_os sm (the (t_next t)) acc))
          \<le> unvisited sm (fst ` set acc)"
    by (rule unvisited_mono)
  then show ?case by auto
next
  case (5 sm t ts acc)
  then show ?case by simp
qed

text \<open>
  The function returns the result dictionary; what it prints is kept beside it. An
  exception (from \<open>get_first_state\<close> or from building the state map) leaves the function.
\<close>

definition get_states_by_trigger_type ::
  "flow_definition \<Rightarrow> TriggerType \<Rightarrow> string list \<times> (py_error + all_states)" where
  "get_states_by_trigger_type fd tt =
     (case fd_states fd of
        None \<Rightarrow> ([''Invalid flow definition: '' @ [CHR 0x27] @ ''states'' @ [CHR 0x27] @ '' key not found.''], Inr [])
      | Some sts \<Rightarrow>
          (case get_first_state fd tt of
             Inl e \<Rightarrow> ([], Inl e)
           | Inr initial_state \<Rightarrow>
               if \<not> truthy initial_state
               then ([''No states found for trigger type '' @ [CHR 0x27] @ trigger_value tt
                        @ [CHR 0x27] @ ''.''], Inr [])
               else (case build_state_map sts [] of
                       Inl e \<Rightarrow> ([], Inl e)
                     | Inr sm \<Rightarrow> ([], Inr (traverse_state_os sm (the initial_state) [])))))"

section \<open>mermaid.py\<close>

text \<open>
  The mutable variables the nested \<open>traverse_state\<close> closes over. \<open>visited_states\<close> is
  the set, kept as the list of the elements added to it, latest first; membership is
  membership in the list.
\<close>

record walk =
  visited_states :: "string list"
  graph_parts :: "string list"
  link_index :: int

text \<open>\<^verbatim>\<open>friendly_states.get(state_name, state_name)\<close>\<close>

definition friendly_name_of :: "(string \<rightharpoonup> string) \<Rightarrow> string \<Rightarrow> string" where
  "friendly_name_of friendly_states state_name =
     (case friendly_states state_name of None \<Rightarrow> state_name | Some f \<Rightarrow> f)"

definition node_line :: "state \<Rightarrow> string \<Rightarrow> string \<Rightarrow> string" where
  "node_line st state_name friendly_name =
     (if s_type st = Some ''split-based-on''
      then ''    '' @ state_name @ ''{'' @ friendly_name @ ''}''
      else ''    '' @ state_name @ ''('' @ friendly_name @ '')'')"

text \<open>
  The body of the transition loop up to the recursive call, for a transition whose
  \<^verbatim>\<open>next\<close> is truthy: the link index is incremented, the edge line is appended and, in
  the branch without conditions only, the styling line.
\<close>

definition emit_edge :: "string \<Rightarrow> transition \<Rightarrow> walk \<Rightarrow> walk" where
  "emit_edge state_name t w =
     (let next_state = the (t_next t);
          i = link_index w + 1
      in if truthy (t_conditions t)
         then w\<lparr>link_index := i,
                graph_parts := graph_parts w @
                  [''    '' @ state_name @ '' --> |''
                     @ fmt (c_friendly_name (hd (the (t_conditions t)))) @ ''| '' @ next_state]\<rparr>
         else
           let event = t_event t;
               edge = (if event \<noteq> Some ''next''
                       then ''    '' @ state_name @ '' --> |'' @ fmt event @ ''| '' @ next_state
                       else ''    '' @ state_name @ '' --> '' @ next_state);
               style = (if event = Some ''failed'' \<or> event = Some ''timeout''
                        then [''    linkStyle '' @ str_int i @ '' stroke:red'']
                        else [])
           in w\<lparr>link_index := i, graph_parts := graph_parts w @ [edge] @ style\<rparr>)"

function traverse_state :: "state_map \<Rightarrow> (string \<rightharpoonup> string) \<Rightarrow> string \<Rightarrow> walk \<Rightarrow> walk"
  and traverse_transitions ::
    "state_map \<Rightarrow> (string \<rightharpoonup> string) \<Rightarrow> string \<Rightarrow> transition list \<Rightarrow> walk \<Rightarrow> walk"
where
  "traverse_state sm fs state_name w =
     (if state_name \<in> set (visited_states w) \<or> map_of sm state_name = None then w
      else traverse_transitions sm fs state_name
             (get_transitions (the (map_of sm state_name)))
             (w\<lparr>visited_states := state_name # visited_states w,
                graph_parts := graph_parts w @
                  [node_line (the (map_of sm state_name)) state_name
                     (friendly_name_of fs state_name)]\<rparr>))"
| "traverse_transitions sm fs state_name [] w = w"
| "traverse_transitions sm fs state_name (t # ts) w =
     (if truthy (t_next t)
      then traverse_transitions sm fs state_name ts
             (traverse_state sm fs (the (t_next t)) (emit_edge state_name t w))
      else traverse_transitions sm fs state_name ts w)"
  by pat_completeness auto

lemma visited_emit_edge [simp]: "visited_states (emit_edge n t w) = visited_states w"
  by (simp add: emit_edge_def Let_def)

lemma traverse_dom_mono:
  "traverse_state_traverse_transitions_dom (Inl (sm, fs, n, w)) \<Longrightarrow>
     set (visited_states w) \<subseteq> set (visited_states (traverse_state sm fs n w))"
  "traverse_state_traverse_transitions_dom (Inr (sm, fs, n, ts, w)) \<Longrightarrow>
     set (visited_states w) \<subseteq> set (visited_states (traverse_transitions sm fs n ts w))"
proof (induction sm fs n w and sm fs n ts w rule: traverse_state_traverse_transitions.pinduct)
  case (1 sm fs state_name w)
  then show ?case
    by (auto simp: traverse_state.psimps)
next
  case (2 sm fs state_name w)
  then show ?case
    by (simp add: traverse_transitions.psimps)
next
  case (3 sm fs state_name t ts w)
  show ?case
  proof (cases "truthy (t_next t)")
    case True
    with 3 show ?thesis
      by (simp add: traverse_transitions.psimps)
  next
    case False
    with 3 show ?thesis
      by (simp add: traverse_transitions.psimps)
  qed
qed

termination traverse_state
proof (relation "inv_image (less_than <*lex*> less_than)
    (\<lambda>x. case x of
       Inl (sm, fs, n, w) \<Rightarrow> (unvisited sm (set (visited_states w)), 0)
     | Inr (sm, fs, n, ts, w) \<Rightarrow> (unvisited sm (set (visited_states w)), Suc (length ts)))",
    goal_cases)
  case 1
  show ?case
    by (intro wf_inv_image wf_lex_prod wf_less_than)
next
  case (2 sm fs state_name w)
  then have "unvisited sm (insert state_name (set (visited_states w)))
               < unvisited sm (set (visited_states w))"
    by (intro unvisited_insert) auto
  then show ?case by simp
next
  case (3 sm fs state_name t ts w)
  then show ?case by simp
next
  case (4 sm fs state_name t ts w)
  from traverse_dom_mono(1)[OF 4(2)]
  have "unvisited sm (set (visited_states
            (traverse_state sm fs (the (t_next t)) (emit_edge state_name t w))))
          \<le> unvisited sm (set (visited_states (emit_edge state_name t w)))"
    by (rule unvisited_mono)
  then show ?case by auto
next
  case (5 sm fs state_name t ts w)
  then show ?case by simp
qed

text \<open>
  \<open>read_json\<close> is the outcome of \<^verbatim>\<open>open(states_file)\<close> followed by \<^verbatim>\<open>json.load\<close>: the
  loaded dictionary, or the exception raised (\<open>FileNotFoundError\<close>, \<open>JSONDecodeError\<close>).
  The function has no handler, so either exception leaves it. The initial state
  \<^verbatim>\<open>None\<close> is in no state map, so the first call returns at once.
\<close>

definition initial_walk :: walk where
  "initial_walk = \<lparr>visited_states = [], graph_parts = [''```mermaid'', ''flowchart TD''],
                    link_index = - 1\<rparr>"

definition generate_mermaid_graph ::
  "(string \<Rightarrow> py_error + (string \<rightharpoonup> string)) \<Rightarrow> string option \<Rightarrow> flow_definition
     \<Rightarrow> string option \<Rightarrow> py_error + string list" where
  "generate_mermaid_graph read_json initial_state fd states_file =
     (case (if truthy states_file then read_json (the states_file) else Inr Map.empty) of
        Inl e \<Rightarrow> Inl e
      | Inr friendly_states \<Rightarrow>
          (case fd_states fd of
             None \<Rightarrow> Inl KeyError
           | Some sts \<Rightarrow>
               (case build_state_map sts [] of
                  Inl e \<Rightarrow> Inl e
                | Inr sm \<Rightarrow>
                    Inr (graph_parts
                           (case initial_state of
                              None \<Rightarrow> initial_walk
                            | Some n \<Rightarrow> traverse_state sm friendly_states n initial_walk)
                         @ [''```'']))))"

section \<open>The recursion limit\<close>

text \<open>
  Each call of a \<open>traverse_state\<close> closure takes one frame of the interpreter's stack,
  and the \<^verbatim>\<open>for\<close> loop runs inside the frame of its call. In the functions below \<open>d\<close> is
  the number of nested calls the recursion limit (\<^verbatim>\<open>sys.getrecursionlimit()\<close>, 1000
  unless it is changed, less the frames already on the stack) still allows: a call made
  when none is left raises \<^verbatim>\<open>RecursionError\<close>, also where it would return at once, and
  the exception leaves the traversal, since nothing catches it. Otherwise the bodies
  are those of \<open>traverse_state_os\<close> and \<open>traverse_state\<close>.
\<close>

fun traverse_state_os_bounded :: "nat \<Rightarrow> state_map \<Rightarrow> string \<Rightarrow> all_states \<Rightarrow> py_error + all_states"
  and traverse_transitions_os_bounded ::
    "nat \<Rightarrow> state_map \<Rightarrow> transition list \<Rightarrow> all_states \<Rightarrow> py_error + all_states"
where
  "traverse_state_os_bounded 0 sm state_name acc = Inl RecursionError"
| "traverse_state_os_bounded (Suc d) sm state_name acc =
     (if state_name \<in> fst ` set acc \<or> map_of sm state_name = None then Inr acc
      else traverse_transitions_os_bounded d sm (get_transitions (the (map_of sm state_name)))
             (acc @ [(state_name, state_name)]))"
| "traverse_transitions_os_bounded d sm [] acc = Inr acc"
| "traverse_transitions_os_bounded d sm (t # ts) acc =
     (if truthy (t_next t)
      then (case traverse_state_os_bounded d sm (the (t_next t)) acc of
              Inl e \<Rightarrow> Inl e
            | Inr acc' \<Rightarrow> traverse_transitions_os_bounded d sm ts acc')
      else traverse_transitions_os_bounded d sm ts acc)"

fun traverse_state_bounded ::
    "nat \<Rightarrow> state_map \<Rightarrow> (string \<rightharpoonup> string) \<Rightarrow> string \<Rightarrow> walk \<Rightarrow> py_error + walk"
  and traverse_transitions_bounded ::
    "nat \<Rightarrow> state_map \<Rightarrow> (string \<rightharpoonup> string) \<Rightarrow> string \<Rightarrow> transition list \<Rightarrow> walk \<Rightarrow> py_error + walk"
where
  "traverse_state_bounded 0 sm fs state_name w = Inl RecursionError"
| "traverse_state_bounded (Suc d) sm fs state_name w =
     (if state_name \<in> set (visited_states w) \<or> map_of sm state_name = None then Inr w
      else traverse_transitions_bounded d sm fs state_name
             (get_transitions (the (map_of sm state_name)))
             (w\<lparr>visited_states := state_name # visited_states w,
                graph_parts := graph_parts w @
                  [node_line (the (map_of sm state_name)) state_name
                     (friendly_name_of fs state_name)]\<rparr>))"
| "traverse_transitions_bounded d sm fs state_name [] w = Inr w"
| "traverse_transitions_bounded d sm fs state_name (t # ts) w =
     (if truthy (t_next t)
      then (case traverse_state_bounded d sm fs (the (t_next t)) (emit_edge state_name t w) of
              Inl e \<Rightarrow> Inl e
            | Inr w' \<Rightarrow> traverse_transitions_bounded d sm fs state_name ts w')
      else traverse_transitions_bounded d sm fs state_name ts w)"

section \<open>update\_doc.py\<close>

subsection \<open>The regular expression\<close>

text \<open>
  Characters are Python code points below 256. The pattern is the escaped start tag,
  \<^verbatim>\<open>\s*(.*?)\s*\<close> under \<^verbatim>\<open>re.DOTALL\<close>, and the escaped end tag. Both tags are literal
  text, and the three middle parts together match any text, so a match starts at an
  occurrence of the start tag that has an end tag somewhere after it, and the lazy
  group makes it stop at the first such end tag (which begins with \<^verbatim>\<open><\<close>, not a space,
  so the greedy \<^verbatim>\<open>\s*\<close> cannot run past it). If the first start tag has no end tag
  after it, no later one has. Group 1 is the text between the tags without its leading
  and trailing whitespace.
\<close>

definition start_tag :: "string \<Rightarrow> string" where
  "start_tag section_identifier = ''<!-- '' @ section_identifier @ ''-start -->''"

definition end_tag :: "string \<Rightarrow> string" where
  "end_tag section_identifier = ''<!-- '' @ section_identifier @ ''-end -->''"

text \<open>The first occurrence of \<open>p\<close> in a text: the text before it and the text after it.\<close>

fun find_sub :: "string \<Rightarrow> string \<Rightarrow> (string \<times> string) option" where
  "find_sub p [] = (if p = [] then Some ([], []) else None)"
| "find_sub p (c # cs) =
     (if prefix p (c # cs) then Some ([], drop (length p) (c # cs))
      else map_option (\<lambda>(a, b). (c # a, b)) (find_sub p cs))"

text \<open>\<^verbatim>\<open>\s\<close> on a \<^verbatim>\<open>str\<close> pattern, for code points below 256.\<close>

definition ord :: "char \<Rightarrow> nat" where
  "ord c = of_char c"

definition is_space :: "char \<Rightarrow> bool" where
  "is_space c = ((9 \<le> ord c \<and> ord c \<le> 13) \<or> (28 \<le> ord c \<and> ord c \<le> 32)
                   \<or> ord c = 133 \<or> ord c = 160)"

definition strip_space :: "string \<Rightarrow> string" where
  "strip_space s = rev (dropWhile is_space (rev (dropWhile is_space s)))"

subsection \<open>The replacement template\<close>

text \<open>
  \<^verbatim>\<open>re.sub\<close> reads its replacement as a template (Python 3.12): a backslash starts an
  escape, a reference to group 0 or 1 (the pattern has one group), or an octal
  character code; an escape it does not know raises \<^verbatim>\<open>re.error\<close>. Text without a
  backslash stands for itself. The template is compiled before the search starts.
\<close>

datatype piece = Lit string | Group nat

definition backslash :: char where
  "backslash = CHR 0x5C"

definition is_digit :: "char \<Rightarrow> bool" where
  "is_digit c = (48 \<le> ord c \<and> ord c \<le> 57)"

definition is_octdigit :: "char \<Rightarrow> bool" where
  "is_octdigit c = (48 \<le> ord c \<and> ord c \<le> 55)"

definition is_ascii_letter :: "char \<Rightarrow> bool" where
  "is_ascii_letter c = ((97 \<le> ord c \<and> ord c \<le> 122) \<or> (65 \<le> ord c \<and> ord c \<le> 90))"

definition digit_val :: "char \<Rightarrow> nat" where
  "digit_val c = ord c - 48"

text \<open>\<^verbatim>\<open>int(name)\<close> and \<^verbatim>\<open>int(digits, 8)\<close> on a string of digits.\<close>

definition int_of_digits :: "nat \<Rightarrow> string \<Rightarrow> nat" where
  "int_of_digits base ds = foldl (\<lambda>acc d. base * acc + digit_val d) 0 ds"

text \<open>The table \<^verbatim>\<open>ESCAPES\<close> of the parser.\<close>

definition escapes :: "char \<Rightarrow> char option" where
  "escapes c =
     (if c = CHR ''a'' then Some (CHR 0x07) else if c = CHR ''b'' then Some (CHR 0x08)
      else if c = CHR ''f'' then Some (CHR 0x0C) else if c = CHR ''n'' then Some (CHR 0x0A)
      else if c = CHR ''r'' then Some (CHR 0x0D) else if c = CHR ''t'' then Some (CHR 0x09)
      else if c = CHR ''v'' then Some (CHR 0x0B) else if c = backslash then Some backslash
      else None)"

text \<open>A reference to group \<open>i\<close>; the pattern has groups 0 and 1.\<close>

definition addgroup :: "nat \<Rightarrow> py_error + piece list \<Rightarrow> py_error + piece list" where
  "addgroup i rest = (if i > 1 then Inl ReError
                      else case rest of Inl e \<Rightarrow> Inl e | Inr ps \<Rightarrow> Inr (Group i # ps))"

definition addliteral :: "string \<Rightarrow> py_error + piece list \<Rightarrow> py_error + piece list" where
  "addliteral s rest = (case rest of Inl e \<Rightarrow> Inl e | Inr ps \<Rightarrow> Inr (Lit s # ps))"

function parse_template :: "string \<Rightarrow> py_error + piece list" where
  "parse_template [] = Inr []"
| "parse_template (c # cs) =
     (if c \<noteq> backslash then addliteral [c] (parse_template cs)
      else case cs of
        [] \<Rightarrow> Inl ReError
      | d # r \<Rightarrow>
          if d = CHR ''g'' then
            (case r of
               [] \<Rightarrow> Inl ReError
             | lt # r1 \<Rightarrow>
                 let name = takeWhile (\<lambda>x. x \<noteq> CHR ''>'') r1;
                     after = dropWhile (\<lambda>x. x \<noteq> CHR ''>'') r1
                 in if lt \<noteq> CHR ''<'' \<or> after = [] \<or> name = [] \<or> \<not> list_all is_digit name
                    then Inl ReError
                    else addgroup (int_of_digits 10 name) (parse_template (tl after)))
          else if d = CHR ''0'' then
            (let ds = takeWhile is_octdigit (take 2 r)
             in addliteral [char_of (int_of_digits 8 ds mod 256)]
                  (parse_template (drop (length ds) r)))
          else if is_digit d then
            (case r of
               [] \<Rightarrow> addgroup (digit_val d) (Inr [])
             | d2 # r2 \<Rightarrow>
                 if is_digit d2 then
                   (case r2 of
                      [] \<Rightarrow> addgroup (int_of_digits 10 [d, d2]) (Inr [])
                    | d3 # r3 \<Rightarrow>
                        if is_octdigit d \<and> is_octdigit d2 \<and> is_octdigit d3
                        then (if int_of_digits 8 [d, d2, d3] > 255 then Inl ReError
                              else addliteral [char_of (int_of_digits 8 [d, d2, d3])]
                                     (parse_template r3))
                        else addgroup (int_of_digits 10 [d, d2]) (parse_template r2))
                 else addgroup (digit_val d) (parse_template r))
          else
            (case escapes d of
               Some e \<Rightarrow> addliteral [e] (parse_template r)
             | None \<Rightarrow> if is_ascii_letter d then Inl ReError
                       else addliteral [c, d] (parse_template r)))"
  by pat_completeness auto
termination
proof (relation "measure length", goal_cases)
  case (3 c cs d r lt r1 name after)
  have "length (dropWhile (\<lambda>x. x \<noteq> CHR ''>'') r1) \<le> length r1"
    by (rule length_dropWhile_le)
  then have "length (tl (dropWhile (\<lambda>x. x \<noteq> CHR ''>'') r1)) \<le> length r1"
    by simp
  with 3 show ?case by simp
qed auto

text \<open>The replacement for one match: its groups 0 and 1 put into the template.\<close>

fun expand :: "piece list \<Rightarrow> string \<Rightarrow> string \<Rightarrow> string" where
  "expand [] g0 g1 = []"
| "expand (Lit s # ps) g0 g1 = s @ expand ps g0 g1"
| "expand (Group i # ps) g0 g1 = (if i = 0 then g0 else g1) @ expand ps g0 g1"

subsection \<open>re.sub and update\_mermaid\_graph\<close>

lemma find_sub_append: "find_sub p s = Some (a, b) \<Longrightarrow> s = a @ p @ b"
proof (induction s arbitrary: a)
  case Nil
  then show ?case by (simp split: if_splits)
next
  case (Cons c cs)
  show ?case
  proof (cases "prefix p (c # cs)")
    case True
    with Cons.prems have "a = []" "b = drop (length p) (c # cs)"
      by simp_all
    with True show ?thesis
      by (metis append_Nil append_eq_conv_conj prefix_def)
  next
    case False
    with Cons.prems obtain a' where "find_sub p cs = Some (a', b)" "a = c # a'"
      by auto
    with Cons.IH show ?thesis by simp
  qed
qed

text \<open>
  Every match, leftmost first and without overlap, is replaced by the expanded
  template; the text outside the matches is copied.
\<close>

function re_sub :: "string \<Rightarrow> piece list \<Rightarrow> string \<Rightarrow> string" where
  "re_sub section_identifier tmpl content =
     (case find_sub (start_tag section_identifier) content of
        None \<Rightarrow> content
      | Some (before, rest) \<Rightarrow>
          (case find_sub (end_tag section_identifier) rest of
             None \<Rightarrow> content
           | Some (between, after) \<Rightarrow>
               before
               @ expand tmpl (start_tag section_identifier @ between @ end_tag section_identifier)
                   (strip_space between)
               @ re_sub section_identifier tmpl after))"
  by pat_completeness auto
termination
proof (relation "measure (\<lambda>(sid, tmpl, content). length content)", goal_cases)
  case 1
  show ?case by simp
next
  case (2 section_identifier tmpl content x before rest y between after)
  then have "content = before @ start_tag section_identifier @ rest"
    and "rest = between @ end_tag section_identifier @ after"
    by (simp_all add: find_sub_append)
  then show ?case
    by (simp add: start_tag_def)
qed

declare re_sub.simps [simp del]

text \<open>
  The text written back: the \<^verbatim>\<open>re.sub\<close> call on the text read, with the template
  \<^verbatim>\<open>f"{mermaid_start_tag}\n{new_graph}\n{mermaid_end_tag}"\<close>.
\<close>

definition updated_content :: "string \<Rightarrow> string \<Rightarrow> string \<Rightarrow> py_error + string" where
  "updated_content content new_graph section_identifier =
     (case parse_template (start_tag section_identifier @ [CHR 0x0A] @ new_graph @ [CHR 0x0A]
                             @ end_tag section_identifier) of
        Inl e \<Rightarrow> Inl e
      | Inr tmpl \<Rightarrow> Inr (re_sub section_identifier tmpl content))"

text \<open>
  Reading a file in text mode turns every line end (\<^verbatim>\<open>\r\n\<close>, \<^verbatim>\<open>\r\<close> or \<^verbatim>\<open>\n\<close>) into
  \<^verbatim>\<open>\n\<close>.
\<close>

fun universal_newlines :: "string \<Rightarrow> string" where
  "universal_newlines [] = []"
| "universal_newlines [c] = (if c = CHR 0x0D then [CHR 0x0A] else [c])"
| "universal_newlines (c # d # r) =
     (if c = CHR 0x0D \<and> d = CHR 0x0A then CHR 0x0A # universal_newlines r
      else if c = CHR 0x0D then CHR 0x0A # universal_newlines (d # r)
      else c # universal_newlines (d # r))"

text \<open>
  The files are a map from file names to the characters stored (their encoding is not
  modelled); a file either exists or does not, and no other input or output error is
  modelled. Writing in text mode stores the text as it is, as on a POSIX system.
  The outcome of a call: the files afterwards, the lines printed, and the exception
  that left the function, if one did. Only \<open>FileNotFoundError\<close> is caught.
\<close>

record outcome =
  files :: "string \<rightharpoonup> string"
  printed :: "string list"
  raised :: "py_error option"

definition update_mermaid_graph ::
  "(string \<rightharpoonup> string) \<Rightarrow> string \<Rightarrow> string \<Rightarrow> string \<Rightarrow> outcome" where
  "update_mermaid_graph fs filename new_graph section_identifier =
     (case fs filename of
        None \<Rightarrow>
          \<lparr>files = fs,
           printed = [''Error: File '' @ [CHR 0x27] @ filename @ [CHR 0x27] @ '' not found.''],
           raised = None\<rparr>
      | Some stored \<Rightarrow>
          (case updated_content (universal_newlines stored) new_graph section_identifier of
             Inl e \<Rightarrow> \<lparr>files = fs, printed = [], raised = Some e\<rparr>
           | Inr updated \<Rightarrow>
               \<lparr>files = fs(filename \<mapsto> updated), printed = [], raised = None\<rparr>))"

section \<open>What the specification speaks of\<close>

text \<open>
  Entry resolution in the specification's words: the first state of kind \<^verbatim>\<open>trigger\<close>,
  then the target of its first transition whose event is the trigger value; none when
  either search finds nothing.
\<close>

definition resolve_entry :: "state list \<Rightarrow> TriggerType \<Rightarrow> string option" where
  "resolve_entry sts tt =
     (case find (\<lambda>st. s_type st = Some ''trigger'') sts of
        None \<Rightarrow> None
      | Some trig \<Rightarrow>
          (case find (\<lambda>t. t_event t = Some (trigger_value tt)) (get_transitions trig) of
             None \<Rightarrow> None
           | Some t \<Rightarrow> t_next t))"

text \<open>
  The flow as a graph: the targets a state's transitions name, the edges between states
  of the state map, and the states that can be reached from an entry state.
\<close>

definition successors :: "state_map \<Rightarrow> string \<Rightarrow> string set" where
  "successors sm n =
     (case map_of sm n of
        None \<Rightarrow> {}
      | Some st \<Rightarrow> (\<lambda>t. the (t_next t)) ` set (filter (\<lambda>t. truthy (t_next t)) (get_transitions st)))"

definition flow_edges :: "state_map \<Rightarrow> (string \<times> string) set" where
  "flow_edges sm = {(n, m). m \<in> successors sm n \<and> map_of sm m \<noteq> None}"

definition reachable :: "state_map \<Rightarrow> string \<Rightarrow> string set" where
  "reachable sm entry = (if map_of sm entry = None then {} else (flow_edges sm)\<^sup>* `` {entry})"

text \<open>
  The section update in the specification's words: the first occurrence of a marker in
  a text, with the text before and after it, and a text that holds a start marker with
  an end marker somewhere after it.
\<close>

definition first_occurrence :: "string \<Rightarrow> string \<Rightarrow> string \<Rightarrow> string \<Rightarrow> bool" where
  "first_occurrence p s a b \<longleftrightarrow>
     s = a @ p @ b \<and> (\<forall>a' b'. s = a' @ p @ b' \<longrightarrow> length a \<le> length a')"

definition has_section :: "string \<Rightarrow> string \<Rightarrow> bool" where
  "has_section section_identifier content \<longleftrightarrow>
     (\<exists>a m b. content = a @ start_tag section_identifier @ m @ end_tag section_identifier @ b)"

section \<open>An example flow\<close>

text \<open>
  A trigger state leads to \<open>A\<close> on an incoming call; \<open>A\<close> goes on to the split \<open>B\<close>;
  \<open>B\<close> goes to \<open>C\<close> on a condition and back to \<open>A\<close> on failure, which closes a cycle.
\<close>

definition event_transition :: "string \<Rightarrow> string \<Rightarrow> transition" where
  "event_transition e n = \<lparr>t_event = Some e, t_conditions = None, t_next = Some n\<rparr>"

definition condition_transition :: "string \<Rightarrow> string \<Rightarrow> string \<Rightarrow> transition" where
  "condition_transition e c n =
     \<lparr>t_event = Some e, t_conditions = Some [\<lparr>c_friendly_name = Some c\<rparr>], t_next = Some n\<rparr>"

definition example_states :: "state list" where
  "example_states =
     [\<lparr>s_name = Some ''Trigger'', s_type = Some ''trigger'',
       s_transitions = Some [event_transition ''incomingMessage'' ''X'',
                             event_transition ''incomingCall'' ''A'']\<rparr>,
      \<lparr>s_name = Some ''A'', s_type = Some ''say-play'',
       s_transitions = Some [event_transition ''next'' ''B'']\<rparr>,
      \<lparr>s_name = Some ''B'', s_type = Some ''split-based-on'',
       s_transitions = Some [condition_transition ''match'' ''Yes'' ''C'',
                             event_transition ''failed'' ''A'']\<rparr>,
      \<lparr>s_name = Some ''C'', s_type = Some ''say-play'', s_transitions = None\<rparr>]"

definition example_flow :: flow_definition where
  "example_flow = \<lparr>fd_states = Some example_states\<rparr>"

definition example_map :: state_map where
  "example_map = map (\<lambda>st. (the (s_name st), st)) example_states"

text \<open>A state whose only transition has a condition and the event \<^verbatim>\<open>failed\<close>.\<close>

definition styled_condition_flow :: flow_definition where
  "styled_condition_flow =
     \<lparr>fd_states = Some
        [\<lparr>s_name = Some ''A'', s_type = Some ''make-http-request'',
          s_transitions = Some [condition_transition ''failed'' ''Busy'' ''B'']\<rparr>]\<rparr>"

text \<open>
  A flow of \<open>n\<close> states in a row, each going on to the next; the names are \<^verbatim>\<open>s\<close>,
  \<^verbatim>\<open>ss\<close>, \<^verbatim>\<open>sss\<close> and so on.
\<close>

definition chain_name :: "nat \<Rightarrow> string" where
  "chain_name i = replicate (Suc i) (CHR ''s'')"

definition chain_state :: "nat \<Rightarrow> state" where
  "chain_state i = \<lparr>s_name = Some (chain_name i), s_type = Some ''say-play'',
                     s_transitions = Some [event_transition ''next'' (chain_name (Suc i))]\<rparr>"

definition chain_map :: "nat \<Rightarrow> state_map" where
  "chain_map n = map (\<lambda>i. (chain_name i, chain_state i)) [0..<n]"

text \<open>A document with two marked sections, and a directory with one document without any.\<close>

definition two_sections :: string where
  "two_sections = ''a'' @ start_tag ''d'' @ ''x'' @ end_tag ''d'' @ ''b''
                    @ start_tag ''d'' @ ''y'' @ end_tag ''d'' @ ''c''"

definition readme :: "string \<rightharpoonup> string" where
  "readme = [''README.md'' \<mapsto> ''# Flow'']"

definition untyped_state :: state where
  "untyped_state = \<lparr>s_name = Some ''Z'', s_type = None, s_transitions = None\<rparr>"


declare traverse_state_os.simps [simp del] traverse_state.simps [simp del]

section \<open>Entry resolution\<close>

lemmas example_defs = example_flow_def example_states_def example_map_def
  event_transition_def condition_transition_def

lemma build_example_map: "build_state_map example_states [] = Inr example_map"
  by (simp add: example_defs)

lemma find_first_state_find:
  "find_first_state v ts = (case find (\<lambda>t. t_event t = Some v) ts of None \<Rightarrow> None | Some t \<Rightarrow> t_next t)"
  by (induction ts) auto

lemma find_trigger_state_find:
  "\<forall>st \<in> set (takeWhile (\<lambda>st. s_type st \<noteq> Some ''trigger'') sts). s_type st \<noteq> None \<Longrightarrow>
     find_trigger_state sts =
       Inr (case find (\<lambda>st. s_type st = Some ''trigger'') sts of None \<Rightarrow> default_trigger_state | Some st \<Rightarrow> st)"
  by (induction sts) (auto split: option.splits)

lemma get_transitions_default [simp]: "get_transitions default_trigger_state = []"
  by (simp add: get_transitions_def default_trigger_state_def)

text \<open>
  Claim C6. Where the scan for the trigger state raises nothing (every state before the
  first trigger state has a \<^verbatim>\<open>type\<close>), \<open>get_first_state\<close> returns what the specification
  describes: the target of the first transition, in order, of the first trigger state
  whose event is the trigger value, and none when there is no trigger state or no such
  transition. None is a value returned, not an exception.
\<close>

theorem get_first_state_resolve_entry:
  assumes "fd_states fd = Some sts"
    and "\<forall>st \<in> set (takeWhile (\<lambda>st. s_type st \<noteq> Some ''trigger'') sts). s_type st \<noteq> None"
  shows "get_first_state fd tt = Inr (resolve_entry sts tt)"
  using assms(1) find_trigger_state_find[OF assms(2)]
  by (simp add: get_first_state_def resolve_entry_def find_first_state_find split: option.splits)

theorem get_first_state_resolve_entry_witness:
  "get_first_state example_flow INCOMING_CALL = Inr (Some ''A'')
   \<and> get_first_state example_flow SUBFLOW = Inr None"
  using get_first_state_resolve_entry[of example_flow example_states INCOMING_CALL]
    get_first_state_resolve_entry[of example_flow example_states SUBFLOW]
  by (simp add: example_defs resolve_entry_def get_transitions_def)

lemma find_trigger_state_untyped:
  "\<forall>s \<in> set pre. s_type s \<noteq> None \<and> s_type s \<noteq> Some ''trigger'' \<Longrightarrow> s_type st = None \<Longrightarrow>
     find_trigger_state (pre @ st # post) = Inl KeyError"
  by (induction pre) (auto split: option.splits)

text \<open>
  Claim C10. With a \<^verbatim>\<open>states\<close> list in which every state has a \<^verbatim>\<open>type\<close>,
  \<open>get_first_state\<close> returns a value. Without the list it raises \<^verbatim>\<open>KeyError\<close>, and so it
  does when the scan meets a state without a \<^verbatim>\<open>type\<close> before any trigger state: the
  type is read unconditionally.
\<close>

theorem get_first_state_total:
  "(fd_states fd = Some sts \<and> (\<forall>st \<in> set sts. s_type st \<noteq> None)
      \<longrightarrow> (\<exists>r. get_first_state fd tt = Inr r))
   \<and> (fd_states fd = None \<longrightarrow> get_first_state fd tt = Inl KeyError)
   \<and> (fd_states fd = Some (pre @ st # post)
        \<and> (\<forall>s \<in> set pre. s_type s \<noteq> None \<and> s_type s \<noteq> Some ''trigger'') \<and> s_type st = None
      \<longrightarrow> get_first_state fd tt = Inl KeyError)"
proof (intro conjI impI)
  assume a: "fd_states fd = Some sts \<and> (\<forall>st \<in> set sts. s_type st \<noteq> None)"
  then have "\<forall>st \<in> set (takeWhile (\<lambda>st. s_type st \<noteq> Some ''trigger'') sts). s_type st \<noteq> None"
    by (meson set_takeWhileD)
  from find_trigger_state_find[OF this] a show "\<exists>r. get_first_state fd tt = Inr r"
    by (simp add: get_first_state_def)
next
  assume "fd_states fd = None"
  then show "get_first_state fd tt = Inl KeyError"
    by (simp add: get_first_state_def)
next
  assume a: "fd_states fd = Some (pre @ st # post)
        \<and> (\<forall>s \<in> set pre. s_type s \<noteq> None \<and> s_type s \<noteq> Some ''trigger'') \<and> s_type st = None"
  then have "find_trigger_state (pre @ st # post) = Inl KeyError"
    by (intro find_trigger_state_untyped) auto
  with a show "get_first_state fd tt = Inl KeyError"
    by (simp add: get_first_state_def)
qed

theorem get_first_state_total_witness:
  "(\<exists>r. get_first_state example_flow INCOMING_CALL = Inr r)
   \<and> get_first_state \<lparr>fd_states = None\<rparr> INCOMING_CALL = Inl KeyError
   \<and> get_first_state \<lparr>fd_states = Some (untyped_state # example_states)\<rparr> INCOMING_CALL = Inl KeyError"
  using get_first_state_total[of example_flow example_states INCOMING_CALL "[]" untyped_state "[]"]
    get_first_state_total[of "\<lparr>fd_states = None\<rparr>" "[]" INCOMING_CALL "[]" untyped_state "[]"]
    get_first_state_total[of "\<lparr>fd_states = Some (untyped_state # example_states)\<rparr>" "[]"
      INCOMING_CALL "[]" untyped_state example_states]
  by (simp add: example_defs untyped_state_def)

section \<open>The traversals\<close>

lemma traverse_os_mono:
  "fst ` set acc \<subseteq> fst ` set (traverse_state_os sm n acc)"
  "fst ` set acc \<subseteq> fst ` set (traverse_transitions_os sm ts acc)"
proof (induction sm n acc and sm ts acc rule: traverse_state_os_traverse_transitions_os.induct)
  case (1 sm state_name acc)
  then show ?case
    by (auto simp: traverse_state_os.simps)
next
  case (2 sm acc)
  show ?case by simp
next
  case (3 sm t ts acc)
  then show ?case
    by (cases "truthy (t_next t)") auto
qed

lemma traverse_os_distinct:
  "distinct (map fst acc) \<Longrightarrow> distinct (map fst (traverse_state_os sm n acc))"
  "distinct (map fst acc) \<Longrightarrow> distinct (map fst (traverse_transitions_os sm ts acc))"
proof (induction sm n acc and sm ts acc rule: traverse_state_os_traverse_transitions_os.induct)
  case (1 sm state_name acc)
  then show ?case
    by (auto simp: traverse_state_os.simps)
next
  case (2 sm acc)
  then show ?case by simp
next
  case (3 sm t ts acc)
  then show ?case
    by (cases "truthy (t_next t)") auto
qed

lemma traverse_os_entry:
  assumes "map_of sm n \<noteq> None"
  shows "n \<in> fst ` set (traverse_state_os sm n acc)"
proof (cases "n \<in> fst ` set acc")
  case True
  then show ?thesis
    by (simp add: traverse_state_os.simps)
next
  case False
  have "fst ` set (acc @ [(n, n)])
          \<subseteq> fst ` set (traverse_transitions_os sm (get_transitions (the (map_of sm n))) (acc @ [(n, n)]))"
    by (rule traverse_os_mono)
  with False assms show ?thesis
    by (auto simp: traverse_state_os.simps)
qed

lemma successors_iff:
  "m \<in> successors sm n \<longleftrightarrow>
     (\<exists>st t. map_of sm n = Some st \<and> t \<in> set (get_transitions st) \<and> truthy (t_next t) \<and> m = the (t_next t))"
  by (auto simp: successors_def split: option.splits)

lemma traverse_os_closed:
  "\<forall>x \<in> fst ` set (traverse_state_os sm n acc) - fst ` set acc.
     \<forall>m \<in> successors sm x. map_of sm m \<noteq> None \<longrightarrow> m \<in> fst ` set (traverse_state_os sm n acc)"
  "(\<forall>t \<in> set ts. truthy (t_next t) \<and> map_of sm (the (t_next t)) \<noteq> None \<longrightarrow>
       the (t_next t) \<in> fst ` set (traverse_transitions_os sm ts acc)) \<and>
   (\<forall>x \<in> fst ` set (traverse_transitions_os sm ts acc) - fst ` set acc.
     \<forall>m \<in> successors sm x. map_of sm m \<noteq> None \<longrightarrow> m \<in> fst ` set (traverse_transitions_os sm ts acc))"
proof (induction sm n acc and sm ts acc rule: traverse_state_os_traverse_transitions_os.induct)
  case (1 sm state_name acc)
  show ?case
  proof (cases "state_name \<in> fst ` set acc \<or> map_of sm state_name = None")
    case True
    then show ?thesis
      by (simp add: traverse_state_os.simps)
  next
    case False
    define st where "st = the (map_of sm state_name)"
    define res where "res = traverse_transitions_os sm (get_transitions st) (acc @ [(state_name, state_name)])"
    from False have eq: "traverse_state_os sm state_name acc = res"
      by (auto simp: traverse_state_os.simps res_def st_def)
    from False have st: "map_of sm state_name = Some st"
      by (auto simp: st_def)
    from 1[OF False] have
      tgt: "\<forall>t \<in> set (get_transitions st). truthy (t_next t) \<and> map_of sm (the (t_next t)) \<noteq> None
              \<longrightarrow> the (t_next t) \<in> fst ` set res"
      and new: "\<forall>x \<in> fst ` set res - fst ` set (acc @ [(state_name, state_name)]).
              \<forall>m \<in> successors sm x. map_of sm m \<noteq> None \<longrightarrow> m \<in> fst ` set res"
      unfolding res_def st_def by blast+
    show ?thesis
      unfolding eq
    proof (intro ballI impI)
      fix x m
      assume x: "x \<in> fst ` set res - fst ` set acc" and m: "m \<in> successors sm x" "map_of sm m \<noteq> None"
      show "m \<in> fst ` set res"
      proof (cases "x = state_name")
        case True
        with m st tgt show ?thesis
          by (auto simp: successors_iff)
      next
        case False
        with x have "x \<in> fst ` set res - fst ` set (acc @ [(state_name, state_name)])"
          by auto
        with new m show ?thesis by blast
      qed
    qed
  qed
next
  case (2 sm acc)
  show ?case by simp
next
  case (3 sm t ts acc)
  show ?case
  proof (cases "truthy (t_next t)")
    case False
    with 3(3)[OF False] show ?thesis by simp
  next
    case True
    define mid where "mid = traverse_state_os sm (the (t_next t)) acc"
    define res where "res = traverse_transitions_os sm ts mid"
    from True have eq: "traverse_transitions_os sm (t # ts) acc = res"
      by (simp add: res_def mid_def)
    have mono1: "fst ` set acc \<subseteq> fst ` set mid" and mono2: "fst ` set mid \<subseteq> fst ` set res"
      unfolding mid_def res_def by (rule traverse_os_mono)+
    from 3(1)[OF True] have new1:
      "\<forall>x \<in> fst ` set mid - fst ` set acc. \<forall>m \<in> successors sm x. map_of sm m \<noteq> None \<longrightarrow> m \<in> fst ` set mid"
      unfolding mid_def .
    from 3(2)[OF True] have
      tgt2: "\<forall>t \<in> set ts. truthy (t_next t) \<and> map_of sm (the (t_next t)) \<noteq> None
               \<longrightarrow> the (t_next t) \<in> fst ` set res"
      and new2: "\<forall>x \<in> fst ` set res - fst ` set mid. \<forall>m \<in> successors sm x. map_of sm m \<noteq> None \<longrightarrow> m \<in> fst ` set res"
      unfolding res_def mid_def by blast+
    have here: "map_of sm (the (t_next t)) \<noteq> None \<Longrightarrow> the (t_next t) \<in> fst ` set res"
      using traverse_os_entry[of sm "the (t_next t)" acc] mono2 unfolding mid_def by blast
    show ?thesis
      unfolding eq
    proof (intro conjI ballI impI)
      fix t' assume "t' \<in> set (t # ts)" "truthy (t_next t') \<and> map_of sm (the (t_next t')) \<noteq> None"
      with here tgt2 show "the (t_next t') \<in> fst ` set res" by auto
    next
      fix x m
      assume x: "x \<in> fst ` set res - fst ` set acc" and m: "m \<in> successors sm x" "map_of sm m \<noteq> None"
      show "m \<in> fst ` set res"
      proof (cases "x \<in> fst ` set mid")
        case True
        with x new1 m have "m \<in> fst ` set mid" by blast
        with mono2 show ?thesis by blast
      next
        case False
        with x new2 m show ?thesis by blast
      qed
    qed
  qed
qed

lemma traverse_os_sound:
  "\<forall>x \<in> fst ` set (traverse_state_os sm n acc) - fst ` set acc.
     map_of sm n \<noteq> None \<and> (n, x) \<in> (flow_edges sm)\<^sup>*"
  "\<forall>x \<in> fst ` set (traverse_transitions_os sm ts acc) - fst ` set acc.
     \<exists>t \<in> set ts. truthy (t_next t) \<and> map_of sm (the (t_next t)) \<noteq> None
        \<and> (the (t_next t), x) \<in> (flow_edges sm)\<^sup>*"
proof (induction sm n acc and sm ts acc rule: traverse_state_os_traverse_transitions_os.induct)
  case (1 sm state_name acc)
  show ?case
  proof (cases "state_name \<in> fst ` set acc \<or> map_of sm state_name = None")
    case True
    then show ?thesis
      by (simp add: traverse_state_os.simps)
  next
    case False
    define st where "st = the (map_of sm state_name)"
    define res where "res = traverse_transitions_os sm (get_transitions st) (acc @ [(state_name, state_name)])"
    from False have eq: "traverse_state_os sm state_name acc = res"
      by (auto simp: traverse_state_os.simps res_def st_def)
    from False have st: "map_of sm state_name = Some st"
      by (auto simp: st_def)
    note ih = 1[OF False, folded st_def, folded res_def]
    show ?thesis
      unfolding eq
    proof (intro ballI conjI)
      fix x assume x: "x \<in> fst ` set res - fst ` set acc"
      show "map_of sm state_name \<noteq> None" using st by simp
      show "(state_name, x) \<in> (flow_edges sm)\<^sup>*"
      proof (cases "x = state_name")
        case True
        then show ?thesis by simp
      next
        case False
        with x have "x \<in> fst ` set res - fst ` set (acc @ [(state_name, state_name)])"
          by auto
        with ih obtain t where t: "t \<in> set (get_transitions st)" "truthy (t_next t)"
          "map_of sm (the (t_next t)) \<noteq> None" "(the (t_next t), x) \<in> (flow_edges sm)\<^sup>*"
          by blast
        from t(1,2) st have "the (t_next t) \<in> successors sm state_name"
          by (auto simp: successors_iff)
        with t(3) have "(state_name, the (t_next t)) \<in> flow_edges sm"
          by (simp add: flow_edges_def)
        then show ?thesis
          using t(4) by (rule converse_rtrancl_into_rtrancl)
      qed
    qed
  qed
next
  case (2 sm acc)
  show ?case by simp
next
  case (3 sm t ts acc)
  show ?case
  proof (cases "truthy (t_next t)")
    case False
    with 3(3)[OF False] show ?thesis by auto
  next
    case True
    define mid where "mid = traverse_state_os sm (the (t_next t)) acc"
    define res where "res = traverse_transitions_os sm ts mid"
    from True have eq: "traverse_transitions_os sm (t # ts) acc = res"
      by (simp add: res_def mid_def)
    note ih1 = 3(1)[OF True, folded mid_def]
    note ih2 = 3(2)[OF True, folded mid_def, folded res_def]
    show ?thesis
      unfolding eq
    proof
      fix x assume x: "x \<in> fst ` set res - fst ` set acc"
      show "\<exists>t' \<in> set (t # ts). truthy (t_next t') \<and> map_of sm (the (t_next t')) \<noteq> None
              \<and> (the (t_next t'), x) \<in> (flow_edges sm)\<^sup>*"
      proof (cases "x \<in> fst ` set mid")
        case True
        with x ih1 \<open>truthy (t_next t)\<close> show ?thesis by auto
      next
        case False
        with x ih2 show ?thesis by auto
      qed
    qed
  qed
qed

lemma traverse_os_reachable:
  "fst ` set (traverse_state_os sm entry []) = reachable sm entry"
proof (cases "map_of sm entry = None")
  case True
  then show ?thesis
    by (simp add: traverse_state_os.simps reachable_def)
next
  case False
  let ?V = "fst ` set (traverse_state_os sm entry [])"
  have "?V \<subseteq> (flow_edges sm)\<^sup>* `` {entry}"
    using traverse_os_sound(1)[of sm entry "[]"] by auto
  moreover have "x \<in> ?V" if "(entry, x) \<in> (flow_edges sm)\<^sup>*" for x
    using that
  proof (induction rule: rtrancl_induct)
    case base
    from False show ?case by (rule traverse_os_entry)
  next
    case (step y z)
    from step(2) have "z \<in> successors sm y" "map_of sm z \<noteq> None"
      by (simp_all add: flow_edges_def)
    with step(3) traverse_os_closed(1)[of sm entry "[]"] show ?case
      by auto
  qed
  ultimately show ?thesis
    using False by (auto simp: reachable_def)
qed

lemma traverse_simulates_os:
  "\<forall>acc. map fst acc = rev (visited_states w) \<longrightarrow>
     map fst (traverse_state_os sm n acc) = rev (visited_states (traverse_state sm fs n w))"
  "\<forall>acc. map fst acc = rev (visited_states w) \<longrightarrow>
     map fst (traverse_transitions_os sm ts acc) = rev (visited_states (traverse_transitions sm fs n ts w))"
proof (induction sm fs n w and sm fs n ts w rule: traverse_state_traverse_transitions.induct)
  case (1 sm fs state_name w)
  show ?case
  proof (intro allI impI)
    fix acc :: all_states
    assume acc: "map fst acc = rev (visited_states w)"
    then have mem: "state_name \<in> fst ` set acc \<longleftrightarrow> state_name \<in> set (visited_states w)"
      by (metis set_map set_rev)
    show "map fst (traverse_state_os sm state_name acc)
            = rev (visited_states (traverse_state sm fs state_name w))"
    proof (cases "state_name \<in> set (visited_states w) \<or> map_of sm state_name = None")
      case True
      with mem acc show ?thesis
        by (simp add: traverse_state_os.simps traverse_state.simps)
    next
      case False
      from False mem have nv: "state_name \<notin> set (visited_states w)" "state_name \<notin> fst ` set acc"
        and ex: "map_of sm state_name \<noteq> None"
        by auto
      from 1[OF False] acc have
        "map fst (traverse_transitions_os sm (get_transitions (the (map_of sm state_name)))
                   (acc @ [(state_name, state_name)]))
         = rev (visited_states (traverse_transitions sm fs state_name
                 (get_transitions (the (map_of sm state_name)))
                 (w\<lparr>visited_states := state_name # visited_states w,
                    graph_parts := graph_parts w @
                      [node_line (the (map_of sm state_name)) state_name
                         (friendly_name_of fs state_name)]\<rparr>)))"
        by simp
      then show ?thesis
        by (simp only: traverse_state_os.simps[of sm state_name acc]
              traverse_state.simps[of sm fs state_name w] nv ex if_False simp_thms)
    qed
  qed
next
  case (2 sm fs state_name w)
  show ?case by simp
next
  case (3 sm fs state_name t ts w)
  show ?case
  proof (cases "truthy (t_next t)")
    case True
    with 3(1,2)[OF True] show ?thesis by simp
  next
    case False
    with 3(3)[OF False] show ?thesis by simp
  qed
qed

lemma traverse_os_example:
  "traverse_state_os example_map ''A'' [] = [(''A'', ''A''), (''B'', ''B''), (''C'', ''C'')]"
  by (simp add: traverse_state_os.simps example_defs get_transitions_def)

lemma traverse_example:
  "visited_states (traverse_state example_map fs ''A'' initial_walk) = [''C'', ''B'', ''A'']"
  by (simp add: traverse_state.simps example_defs get_transitions_def initial_walk_def emit_edge_def Let_def)

text \<open>
  Within the recursion limit: started with nothing visited, each traversal enters the
  states reachable from the entry state, and no others, once. The keys of the result
  dictionary, and the elements added to \<open>visited_states\<close>, are those states without
  repetition.
\<close>

lemma traversals_visit_reachable:
  "distinct (map fst (traverse_state_os sm entry []))
   \<and> fst ` set (traverse_state_os sm entry []) = reachable sm entry
   \<and> distinct (visited_states (traverse_state sm fs entry initial_walk))
   \<and> set (visited_states (traverse_state sm fs entry initial_walk)) = reachable sm entry"
proof -
  have d: "distinct (map fst (traverse_state_os sm entry []))"
    by (rule traverse_os_distinct) simp
  have r: "fst ` set (traverse_state_os sm entry []) = reachable sm entry"
    by (rule traverse_os_reachable)
  have "map fst (traverse_state_os sm entry [])
          = rev (visited_states (traverse_state sm fs entry initial_walk))"
    using traverse_simulates_os(1)[of initial_walk sm entry fs]
    by (simp add: initial_walk_def)
  then have v: "visited_states (traverse_state sm fs entry initial_walk)
                  = rev (map fst (traverse_state_os sm entry []))"
    by simp
  from d r show ?thesis
    unfolding v by simp
qed


section \<open>The traversals under the recursion limit\<close>

text \<open>With more nested calls allowed than states are unvisited, the limit is not reached.\<close>

lemma traverse_os_bounded_enough:
  "\<forall>d. unvisited sm (fst ` set acc) < d \<longrightarrow>
     traverse_state_os_bounded d sm n acc = Inr (traverse_state_os sm n acc)"
  "\<forall>d. unvisited sm (fst ` set acc) < d \<longrightarrow>
     traverse_transitions_os_bounded d sm ts acc = Inr (traverse_transitions_os sm ts acc)"
proof (induction sm n acc and sm ts acc rule: traverse_state_os_traverse_transitions_os.induct)
  case (1 sm state_name acc)
  show ?case
  proof (intro allI impI)
    fix d assume d: "unvisited sm (fst ` set acc) < d"
    then obtain d' where d': "d = Suc d'" by (cases d) auto
    show "traverse_state_os_bounded d sm state_name acc = Inr (traverse_state_os sm state_name acc)"
    proof (cases "state_name \<in> fst ` set acc \<or> map_of sm state_name = None")
      case True
      then show ?thesis
        by (simp add: d' traverse_state_os.simps)
    next
      case False
      then have nv: "state_name \<notin> fst ` set acc" and ex: "map_of sm state_name \<noteq> None"
        by auto
      from unvisited_insert[OF ex nv] d d'
      have "unvisited sm (fst ` set (acc @ [(state_name, state_name)])) < d'"
        by simp
      with 1[OF False] have
        "traverse_transitions_os_bounded d' sm (get_transitions (the (map_of sm state_name)))
             (acc @ [(state_name, state_name)])
         = Inr (traverse_transitions_os sm (get_transitions (the (map_of sm state_name)))
             (acc @ [(state_name, state_name)]))"
        by blast
      with nv ex show ?thesis
        by (auto simp: d' traverse_state_os.simps)
    qed
  qed
next
  case (2 sm acc)
  show ?case by simp
next
  case (3 sm t ts acc)
  show ?case
  proof (intro allI impI)
    fix d assume d: "unvisited sm (fst ` set acc) < d"
    show "traverse_transitions_os_bounded d sm (t # ts) acc
            = Inr (traverse_transitions_os sm (t # ts) acc)"
    proof (cases "truthy (t_next t)")
      case True
      from 3(1)[OF True] d have inner:
        "traverse_state_os_bounded d sm (the (t_next t)) acc
           = Inr (traverse_state_os sm (the (t_next t)) acc)"
        by blast
      have "unvisited sm (fst ` set (traverse_state_os sm (the (t_next t)) acc))
              \<le> unvisited sm (fst ` set acc)"
        by (intro unvisited_mono traverse_os_mono)
      with 3(2)[OF True] d have
        "traverse_transitions_os_bounded d sm ts (traverse_state_os sm (the (t_next t)) acc)
           = Inr (traverse_transitions_os sm ts (traverse_state_os sm (the (t_next t)) acc))"
        by (meson le_less_trans)
      with inner True show ?thesis by simp
    next
      case False
      with 3(3)[OF False] d show ?thesis by simp
    qed
  qed
qed

lemma traverse_mono:
  "set (visited_states w) \<subseteq> set (visited_states (traverse_state sm fs n w))"
  "set (visited_states w) \<subseteq> set (visited_states (traverse_transitions sm fs n ts w))"
proof (induction sm fs n w and sm fs n ts w rule: traverse_state_traverse_transitions.induct)
  case (1 sm fs state_name w)
  then show ?case
    by (auto simp: traverse_state.simps)
next
  case (2 sm fs state_name w)
  show ?case by simp
next
  case (3 sm fs state_name t ts w)
  then show ?case
    by (cases "truthy (t_next t)") auto
qed

lemma traverse_bounded_enough:
  "\<forall>d. unvisited sm (set (visited_states w)) < d \<longrightarrow>
     traverse_state_bounded d sm fs n w = Inr (traverse_state sm fs n w)"
  "\<forall>d. unvisited sm (set (visited_states w)) < d \<longrightarrow>
     traverse_transitions_bounded d sm fs n ts w = Inr (traverse_transitions sm fs n ts w)"
proof (induction sm fs n w and sm fs n ts w rule: traverse_state_traverse_transitions.induct)
  case (1 sm fs state_name w)
  show ?case
  proof (intro allI impI)
    fix d assume d: "unvisited sm (set (visited_states w)) < d"
    then obtain d' where d': "d = Suc d'" by (cases d) auto
    show "traverse_state_bounded d sm fs state_name w = Inr (traverse_state sm fs state_name w)"
    proof (cases "state_name \<in> set (visited_states w) \<or> map_of sm state_name = None")
      case True
      then show ?thesis
        by (simp add: d' traverse_state.simps)
    next
      case False
      then have nv: "state_name \<notin> set (visited_states w)" and ex: "map_of sm state_name \<noteq> None"
        by auto
      let ?w = "w\<lparr>visited_states := state_name # visited_states w,
                graph_parts := graph_parts w @
                  [node_line (the (map_of sm state_name)) state_name
                     (friendly_name_of fs state_name)]\<rparr>"
      from unvisited_insert[OF ex nv] d d'
      have "unvisited sm (set (visited_states ?w)) < d'"
        by simp
      with 1[OF False] have
        "traverse_transitions_bounded d' sm fs state_name
             (get_transitions (the (map_of sm state_name))) ?w
         = Inr (traverse_transitions sm fs state_name
             (get_transitions (the (map_of sm state_name))) ?w)"
        by blast
      with nv ex show ?thesis
        by (auto simp: d' traverse_state.simps)
    qed
  qed
next
  case (2 sm fs state_name w)
  show ?case by simp
next
  case (3 sm fs state_name t ts w)
  show ?case
  proof (intro allI impI)
    fix d assume d: "unvisited sm (set (visited_states w)) < d"
    show "traverse_transitions_bounded d sm fs state_name (t # ts) w
            = Inr (traverse_transitions sm fs state_name (t # ts) w)"
    proof (cases "truthy (t_next t)")
      case True
      let ?e = "emit_edge state_name t w"
      from 3(1)[OF True] d have inner:
        "traverse_state_bounded d sm fs (the (t_next t)) ?e
           = Inr (traverse_state sm fs (the (t_next t)) ?e)"
        by simp
      have "unvisited sm (set (visited_states (traverse_state sm fs (the (t_next t)) ?e)))
              \<le> unvisited sm (set (visited_states ?e))"
        by (intro unvisited_mono traverse_mono)
      with 3(2)[OF True] d have
        "traverse_transitions_bounded d sm fs state_name ts (traverse_state sm fs (the (t_next t)) ?e)
           = Inr (traverse_transitions sm fs state_name ts (traverse_state sm fs (the (t_next t)) ?e))"
        by (simp add: le_less_trans)
      with inner True show ?thesis by simp
    next
      case False
      with 3(3)[OF False] d show ?thesis by simp
    qed
  qed
qed

lemma chain_name_inj: "chain_name i = chain_name j \<longleftrightarrow> i = j"
  by (auto simp: chain_name_def dest: arg_cong[where f = length])

lemma map_of_chain_map: "i < n \<Longrightarrow> map_of (chain_map n) (chain_name i) = Some (chain_state i)"
proof (induction n)
  case 0
  then show ?case by simp
next
  case (Suc n)
  show ?case
  proof (cases "i < n")
    case True
    with Suc.IH have "map_of (chain_map n) (chain_name i) = Some (chain_state i)" by simp
    then show ?thesis
      by (simp add: chain_map_def map_add_def)
  next
    case False
    with Suc.prems have i: "i = n" by simp
    have "map_of (chain_map n) (chain_name n) = None"
      by (auto simp: chain_map_def map_of_eq_None_iff chain_name_inj)
    with i show ?thesis
      by (simp add: chain_map_def map_add_def)
  qed
qed

lemma chain_os_too_deep:
  "i + d \<le> n \<Longrightarrow> \<forall>j \<ge> i. chain_name j \<notin> fst ` set acc \<Longrightarrow>
     traverse_state_os_bounded d (chain_map n) (chain_name i) acc = Inl RecursionError"
proof (induction d arbitrary: i acc)
  case 0
  show ?case by simp
next
  case (Suc d)
  from Suc.prems(1) have i: "i < n" by simp
  from Suc.prems(2) have nv: "chain_name i \<notin> fst ` set acc" by simp
  have "\<forall>j \<ge> Suc i. chain_name j \<notin> fst ` set (acc @ [(chain_name i, chain_name i)])"
    using Suc.prems(2) by (auto simp: chain_name_inj)
  with Suc.IH[of "Suc i" "acc @ [(chain_name i, chain_name i)]"] Suc.prems(1)
  have "traverse_state_os_bounded d (chain_map n) (chain_name (Suc i))
          (acc @ [(chain_name i, chain_name i)]) = Inl RecursionError"
    by simp
  with nv map_of_chain_map[OF i] show ?case
    by (simp add: chain_state_def get_transitions_def event_transition_def chain_name_def)
qed

lemma chain_too_deep:
  "i + d \<le> n \<Longrightarrow> \<forall>j \<ge> i. chain_name j \<notin> set (visited_states w) \<Longrightarrow>
     traverse_state_bounded d (chain_map n) fs (chain_name i) w = Inl RecursionError"
proof (induction d arbitrary: i w)
  case 0
  show ?case by simp
next
  case (Suc d)
  from Suc.prems(1) have i: "i < n" by simp
  from Suc.prems(2) have nv: "chain_name i \<notin> set (visited_states w)" by simp
  let ?w = "emit_edge (chain_name i) (event_transition ''next'' (chain_name (Suc i)))
              (w\<lparr>visited_states := chain_name i # visited_states w,
                 graph_parts := graph_parts w @
                   [node_line (chain_state i) (chain_name i) (friendly_name_of fs (chain_name i))]\<rparr>)"
  have "\<forall>j \<ge> Suc i. chain_name j \<notin> set (visited_states ?w)"
    using Suc.prems(2) by (auto simp: chain_name_inj)
  with Suc.IH[of "Suc i" ?w] Suc.prems(1)
  have "traverse_state_bounded d (chain_map n) fs (chain_name (Suc i)) ?w = Inl RecursionError"
    by simp
  with nv map_of_chain_map[OF i] show ?case
    by (simp add: chain_state_def get_transitions_def event_transition_def chain_name_def)
qed

text \<open>
  A bounded traversal that returns has the result of the traversal without the limit:
  what is proved of \<open>traverse_state_os\<close> and \<open>traverse_state\<close> holds of every run that
  returns.
\<close>

lemma traverse_os_bounded_result:
  "traverse_state_os_bounded d sm n acc = Inr r \<Longrightarrow> r = traverse_state_os sm n acc"
  "traverse_transitions_os_bounded d sm ts acc = Inr r \<Longrightarrow> r = traverse_transitions_os sm ts acc"
proof (induction d sm n acc and d sm ts acc arbitrary: r and r
    rule: traverse_state_os_bounded_traverse_transitions_os_bounded.induct)
  case (1 sm state_name acc)
  then show ?case by simp
next
  case (2 d sm state_name acc)
  then show ?case
    by (auto simp: traverse_state_os.simps split: if_splits)
next
  case (3 d sm acc)
  then show ?case by simp
next
  case (4 d sm t ts acc)
  then show ?case
    by (auto split: if_splits sum.splits)
qed

lemma traverse_bounded_result:
  "traverse_state_bounded d sm fs n w = Inr r \<Longrightarrow> r = traverse_state sm fs n w"
  "traverse_transitions_bounded d sm fs n ts w = Inr r \<Longrightarrow> r = traverse_transitions sm fs n ts w"
proof (induction d sm fs n w and d sm fs n ts w arbitrary: r and r
    rule: traverse_state_bounded_traverse_transitions_bounded.induct)
  case (1 sm fs state_name w)
  then show ?case by simp
next
  case (2 d sm fs state_name w)
  then show ?case
    by (auto simp: traverse_state.simps split: if_splits)
next
  case (3 d sm fs state_name w)
  then show ?case by simp
next
  case (4 d sm fs state_name t ts w)
  then show ?case
    by (auto split: if_splits sum.splits)
qed

text \<open>
  Claim C5, amended. When the recursion limit allows more nested calls than the flow
  has states, both traversals return, on every state map, cycles included: a state is
  marked visited before its transitions are expanded, so the calls never nest deeper
  than the number of states plus one. Each traversal then has entered the states
  reachable from the entry state, and no others, once.
\<close>

theorem bounded_traversals_visit_reachable_once:
  assumes "card (fst ` set sm) < d"
  shows "\<exists>acc w. traverse_state_os_bounded d sm entry [] = Inr acc
           \<and> distinct (map fst acc) \<and> fst ` set acc = reachable sm entry
           \<and> traverse_state_bounded d sm fs entry initial_walk = Inr w
           \<and> distinct (visited_states w) \<and> set (visited_states w) = reachable sm entry"
proof -
  from assms have "unvisited sm (fst ` set []) < d" "unvisited sm (set (visited_states initial_walk)) < d"
    by (simp_all add: unvisited_def initial_walk_def)
  with traverse_os_bounded_enough(1)[of sm "[]" entry] traverse_bounded_enough(1)[of sm initial_walk fs entry]
  have "traverse_state_os_bounded d sm entry [] = Inr (traverse_state_os sm entry [])"
    and "traverse_state_bounded d sm fs entry initial_walk = Inr (traverse_state sm fs entry initial_walk)"
    by blast+
  with traversals_visit_reachable[of sm entry fs] show ?thesis
    by simp
qed

theorem bounded_traversals_visit_reachable_once_witness:
  "card (fst ` set example_map) < 1000
   \<and> (\<exists>acc w. traverse_state_os_bounded 1000 example_map ''A'' [] = Inr acc
           \<and> distinct (map fst acc) \<and> fst ` set acc = reachable example_map ''A''
           \<and> traverse_state_bounded 1000 example_map Map.empty ''A'' initial_walk = Inr w
           \<and> distinct (visited_states w) \<and> set (visited_states w) = reachable example_map ''A'')"
proof -
  have h: "card (fst ` set example_map) < 1000"
    by (simp add: example_defs)
  from bounded_traversals_visit_reachable_once[OF h, of "''A''" Map.empty] h show ?thesis
    by blast
qed

text \<open>
  Claim C5 says that the traversals visit every reachable state of every finite flow.
  On a row of 1500 states, with 1000 nested calls allowed, both raise
  \<^verbatim>\<open>RecursionError\<close> and return nothing.
\<close>

theorem deep_chain_recursion_error_counterexample:
  "traverse_state_os_bounded 1000 (chain_map 1500) (chain_name 0) [] = Inl RecursionError
   \<and> traverse_state_bounded 1000 (chain_map 1500) Map.empty (chain_name 0) initial_walk
       = Inl RecursionError"
  by (simp add: chain_os_too_deep chain_too_deep initial_walk_def)

section \<open>The rendered lines\<close>

lemma prefix_emit_edge: "prefix (graph_parts w) (graph_parts (emit_edge n t w))"
  by (simp add: emit_edge_def Let_def)

lemma traverse_graph_parts_prefix:
  "prefix (graph_parts w) (graph_parts (traverse_state sm fs n w))"
  "prefix (graph_parts w) (graph_parts (traverse_transitions sm fs n ts w))"
proof (induction sm fs n w and sm fs n ts w rule: traverse_state_traverse_transitions.induct)
  case (1 sm fs state_name w)
  show ?case
  proof (cases "state_name \<in> set (visited_states w) \<or> map_of sm state_name = None")
    case True
    then show ?thesis
      by (simp add: traverse_state.simps)
  next
    case False
    from 1[OF False] have "prefix (graph_parts w) (graph_parts (traverse_transitions sm fs state_name
             (get_transitions (the (map_of sm state_name)))
             (w\<lparr>visited_states := state_name # visited_states w,
                graph_parts := graph_parts w @
                  [node_line (the (map_of sm state_name)) state_name
                     (friendly_name_of fs state_name)]\<rparr>)))"
      by (auto dest: append_prefixD)
    with False show ?thesis
      by (auto simp: traverse_state.simps)
  qed
next
  case (2 sm fs state_name w)
  show ?case by simp
next
  case (3 sm fs state_name t ts w)
  show ?case
  proof (cases "truthy (t_next t)")
    case True
    from 3(1,2)[OF True] prefix_emit_edge[of w state_name t] have
      "prefix (graph_parts w) (graph_parts (traverse_transitions sm fs state_name ts
             (traverse_state sm fs (the (t_next t)) (emit_edge state_name t w))))"
      by (meson prefix_order.trans)
    with True show ?thesis by simp
  next
    case False
    with 3(3)[OF False] show ?thesis by simp
  qed
qed

lemma traverse_transitions_step:
  "truthy (t_next t) \<Longrightarrow>
     traverse_transitions sm fs src (t # ts) w
       = traverse_transitions sm fs src ts (traverse_state sm fs (the (t_next t)) (emit_edge src t w))"
  by simp

lemma emitted_lines_stay:
  assumes "truthy (t_next t)"
  shows "prefix (graph_parts (emit_edge src t w)) (graph_parts (traverse_transitions sm fs src (t # ts) w))"
proof -
  have "prefix (graph_parts (emit_edge src t w))
          (graph_parts (traverse_state sm fs (the (t_next t)) (emit_edge src t w)))"
    by (rule traverse_graph_parts_prefix)
  also have "prefix \<dots> (graph_parts (traverse_transitions sm fs src ts
          (traverse_state sm fs (the (t_next t)) (emit_edge src t w))))"
    by (rule traverse_graph_parts_prefix)
  finally show ?thesis
    using assms by simp
qed

text \<open>
  Claim C7. For a transition with a target, the loop appends these lines and then goes
  into the target: with a condition, one edge line labelled with the first condition's
  friendly name, whatever the event; without a condition, an unlabelled edge line for
  the event \<^verbatim>\<open>next\<close> and an edge line labelled with the event otherwise, followed for the
  events \<^verbatim>\<open>timeout\<close> and \<^verbatim>\<open>failed\<close> by the red styling line with the edge's link index.
  The lines stay in the output.
\<close>

theorem edge_label_precedence:
  assumes "truthy (t_next t)"
  shows "let edge =
               (if truthy (t_conditions t)
                then [''    '' @ src @ '' --> |'' @ fmt (c_friendly_name (hd (the (t_conditions t))))
                        @ ''| '' @ the (t_next t)]
                else if t_event t = Some ''next''
                then [''    '' @ src @ '' --> '' @ the (t_next t)]
                else if t_event t = Some ''timeout''
                then [''    '' @ src @ '' --> |timeout| '' @ the (t_next t),
                      ''    linkStyle '' @ str_int (link_index w + 1) @ '' stroke:red'']
                else if t_event t = Some ''failed''
                then [''    '' @ src @ '' --> |failed| '' @ the (t_next t),
                      ''    linkStyle '' @ str_int (link_index w + 1) @ '' stroke:red'']
                else [''    '' @ src @ '' --> |'' @ fmt (t_event t) @ ''| '' @ the (t_next t)])
         in traverse_transitions sm fs src (t # ts) w
              = traverse_transitions sm fs src ts
                  (traverse_state sm fs (the (t_next t))
                     (w\<lparr>link_index := link_index w + 1, graph_parts := graph_parts w @ edge\<rparr>))
            \<and> prefix (graph_parts w @ edge)
                  (graph_parts (traverse_transitions sm fs src (t # ts) w))"
proof -
  have e: "emit_edge src t w = w\<lparr>link_index := link_index w + 1, graph_parts := graph_parts w @
               (if truthy (t_conditions t)
                then [''    '' @ src @ '' --> |'' @ fmt (c_friendly_name (hd (the (t_conditions t))))
                        @ ''| '' @ the (t_next t)]
                else if t_event t = Some ''next''
                then [''    '' @ src @ '' --> '' @ the (t_next t)]
                else if t_event t = Some ''timeout''
                then [''    '' @ src @ '' --> |timeout| '' @ the (t_next t),
                      ''    linkStyle '' @ str_int (link_index w + 1) @ '' stroke:red'']
                else if t_event t = Some ''failed''
                then [''    '' @ src @ '' --> |failed| '' @ the (t_next t),
                      ''    linkStyle '' @ str_int (link_index w + 1) @ '' stroke:red'']
                else [''    '' @ src @ '' --> |'' @ fmt (t_event t) @ ''| '' @ the (t_next t)])\<rparr>"
    by (simp add: emit_edge_def Let_def)
  from emitted_lines_stay[OF assms, of src w sm fs ts] traverse_transitions_step[OF assms, of sm fs src ts w]
  show ?thesis
    unfolding Let_def e by simp
qed

lemma str_int_2: "str_int 2 = ''2''"
  by (simp add: str_int_def str_nat.simps digit_char_def)

theorem edge_label_precedence_witness:
  "prefix [''    B --> |timeout| A'', ''    linkStyle 2 stroke:red'']
     (graph_parts (traverse_transitions example_map Map.empty ''B''
        [\<lparr>t_event = Some ''timeout'', t_conditions = Some [], t_next = Some ''A''\<rparr>]
        \<lparr>visited_states = [''A'', ''B''], graph_parts = [], link_index = 1\<rparr>))"
  using edge_label_precedence[where t = "\<lparr>t_event = Some ''timeout'', t_conditions = Some [], t_next = Some ''A''\<rparr>"
      and sm = example_map and fs = Map.empty and src = "''B''" and ts = "[]"
      and w = "\<lparr>visited_states = [''A'', ''B''], graph_parts = [], link_index = 1\<rparr>"]
  by (simp add: str_int_2 Let_def traverse_state.simps emit_edge_def)

lemma generate_styled_condition_flow:
  "generate_mermaid_graph (\<lambda>f. Inr Map.empty) (Some ''A'') styled_condition_flow None
     = Inr [''```mermaid'', ''flowchart TD'', ''    A(A)'', ''    A --> |Busy| B'', ''```'']"
  by (simp add: generate_mermaid_graph_def styled_condition_flow_def condition_transition_def
      initial_walk_def traverse_state.simps get_transitions_def node_line_def friendly_name_of_def
      emit_edge_def Let_def)

text \<open>
  Claim C1 says that an edge whose event is \<^verbatim>\<open>failed\<close> or \<^verbatim>\<open>timeout\<close> gets the styling
  line also when a condition labels it. The rendering of a state with such a
  transition has no styling line.
\<close>

theorem condition_edge_not_styled_counterexample:
  "generate_mermaid_graph (\<lambda>f. Inr Map.empty) (Some ''A'') styled_condition_flow None
     = Inr [''```mermaid'', ''flowchart TD'', ''    A(A)'', ''    A --> |Busy| B'', ''```'']
   \<and> ''    linkStyle 0 stroke:red'' \<notin> set [''```mermaid'', ''flowchart TD'', ''    A(A)'', ''    A --> |Busy| B'', ''```'']"
  by (simp add: generate_styled_condition_flow)

text \<open>
  Claim C1, amended. A transition without conditions whose event is \<^verbatim>\<open>failed\<close> or
  \<^verbatim>\<open>timeout\<close> gets its edge line, labelled with the event, and right after it the styling
  line with the edge's link index. A transition with a condition gets the one edge line
  labelled by the condition and no styling line, whatever its event.
\<close>

theorem failure_styling_unconditioned_only:
  assumes "truthy (t_next t)"
  shows "(\<not> truthy (t_conditions t) \<and> (t_event t = Some ''failed'' \<or> t_event t = Some ''timeout'')
            \<longrightarrow> prefix (graph_parts w @
                        [''    '' @ src @ '' --> |'' @ the (t_event t) @ ''| '' @ the (t_next t),
                         ''    linkStyle '' @ str_int (link_index w + 1) @ '' stroke:red''])
                     (graph_parts (traverse_transitions sm fs src (t # ts) w)))
       \<and> (truthy (t_conditions t)
            \<longrightarrow> traverse_transitions sm fs src (t # ts) w
                  = traverse_transitions sm fs src ts
                      (traverse_state sm fs (the (t_next t))
                         (w\<lparr>link_index := link_index w + 1,
                            graph_parts := graph_parts w @
                              [''    '' @ src @ '' --> |''
                                 @ fmt (c_friendly_name (hd (the (t_conditions t))))
                                 @ ''| '' @ the (t_next t)]\<rparr>)))"
proof (intro conjI impI)
  assume a: "\<not> truthy (t_conditions t) \<and> (t_event t = Some ''failed'' \<or> t_event t = Some ''timeout'')"
  then have "graph_parts (emit_edge src t w) = graph_parts w @
                        [''    '' @ src @ '' --> |'' @ the (t_event t) @ ''| '' @ the (t_next t),
                         ''    linkStyle '' @ str_int (link_index w + 1) @ '' stroke:red'']"
    by (auto simp: emit_edge_def Let_def)
  with emitted_lines_stay[OF assms, of src w sm fs ts]
  show "prefix (graph_parts w @
                        [''    '' @ src @ '' --> |'' @ the (t_event t) @ ''| '' @ the (t_next t),
                         ''    linkStyle '' @ str_int (link_index w + 1) @ '' stroke:red''])
                     (graph_parts (traverse_transitions sm fs src (t # ts) w))"
    by simp
next
  assume "truthy (t_conditions t)"
  then have "emit_edge src t w = w\<lparr>link_index := link_index w + 1,
                            graph_parts := graph_parts w @
                              [''    '' @ src @ '' --> |''
                                 @ fmt (c_friendly_name (hd (the (t_conditions t))))
                                 @ ''| '' @ the (t_next t)]\<rparr>"
    by (simp add: emit_edge_def Let_def)
  with traverse_transitions_step[OF assms, of sm fs src ts w]
  show "traverse_transitions sm fs src (t # ts) w
                  = traverse_transitions sm fs src ts
                      (traverse_state sm fs (the (t_next t))
                         (w\<lparr>link_index := link_index w + 1,
                            graph_parts := graph_parts w @
                              [''    '' @ src @ '' --> |''
                                 @ fmt (c_friendly_name (hd (the (t_conditions t))))
                                 @ ''| '' @ the (t_next t)]\<rparr>))"
    by simp
qed

lemma str_int_0: "str_int 0 = ''0''"
  by (simp add: str_int_def str_nat.simps digit_char_def)

theorem failure_styling_unconditioned_only_witness:
  "prefix [''    A --> |failed| B'', ''    linkStyle 0 stroke:red'']
     (graph_parts (traverse_transitions [] Map.empty ''A'' [event_transition ''failed'' ''B'']
        \<lparr>visited_states = [''A''], graph_parts = [], link_index = - 1\<rparr>))
   \<and> traverse_transitions [] Map.empty ''A'' [condition_transition ''failed'' ''Busy'' ''B'']
        \<lparr>visited_states = [''A''], graph_parts = [], link_index = - 1\<rparr>
      = \<lparr>visited_states = [''A''], graph_parts = [''    A --> |Busy| B''], link_index = 0\<rparr>"
  using failure_styling_unconditioned_only[where t = "event_transition ''failed'' ''B''"
      and sm = "[]" and fs = Map.empty and src = "''A''" and ts = "[]"
      and w = "\<lparr>visited_states = [''A''], graph_parts = [], link_index = - 1\<rparr>"]
    failure_styling_unconditioned_only[where t = "condition_transition ''failed'' ''Busy'' ''B''"
      and sm = "[]" and fs = Map.empty and src = "''A''" and ts = "[]"
      and w = "\<lparr>visited_states = [''A''], graph_parts = [], link_index = - 1\<rparr>"]
  by (simp add: str_int_0 event_transition_def condition_transition_def traverse_state.simps emit_edge_def Let_def)




text \<open>
  Claim C2. On a flow definition without \<^verbatim>\<open>states\<close> the renderer reads
  \<^verbatim>\<open>flow_definition['states']\<close> unguarded and raises \<^verbatim>\<open>KeyError\<close>, while the state
  extraction checks for the key, prints the message and returns the empty dictionary.
\<close>

theorem generate_mermaid_graph_missing_states_raises:
  "generate_mermaid_graph (\<lambda>f. Inr Map.empty) None \<lparr>fd_states = None\<rparr> None = Inl KeyError
   \<and> get_states_by_trigger_type \<lparr>fd_states = None\<rparr> INCOMING_CALL
       = ([''Invalid flow definition: '' @ [CHR 0x27] @ ''states'' @ [CHR 0x27] @ '' key not found.''], Inr [])"
  by (simp add: generate_mermaid_graph_def get_states_by_trigger_type_def)

text \<open>
  Claim C3. A friendly-name file that is not valid JSON makes \<^verbatim>\<open>json.load\<close> raise; the
  renderer has no handler around it, so the exception leaves the renderer and nothing
  is rendered, where the claim has the problem reported and the states labelled by their
  raw identifiers.
\<close>

theorem generate_mermaid_graph_invalid_json_raises:
  "generate_mermaid_graph (\<lambda>f. Inl JSONDecodeError) (Some ''A'') example_flow (Some ''names.json'')
     = Inl JSONDecodeError"
  by (simp add: generate_mermaid_graph_def)

text \<open>So it is for every exception the loading raises, on every flow.\<close>

lemma generate_mermaid_graph_load_error:
  assumes "truthy states_file" and "read_json (the states_file) = Inl e"
  shows "generate_mermaid_graph read_json entry fd states_file = Inl e"
  using assms by (simp add: generate_mermaid_graph_def)

section \<open>The section update\<close>

lemma find_sub_first:
  "find_sub p s = Some (a, b) \<Longrightarrow> s = a' @ p @ b' \<Longrightarrow> length a \<le> length a'"
proof (induction s arbitrary: a a')
  case Nil
  then show ?case by (simp split: if_splits)
next
  case (Cons c cs)
  show ?case
  proof (cases "prefix p (c # cs)")
    case True
    with Cons.prems(1) have "a = []" by simp
    then show ?thesis by simp
  next
    case False
    with Cons.prems(1) obtain a0 where a0: "find_sub p cs = Some (a0, b)" "a = c # a0"
      by auto
    from False Cons.prems(2) have "a' \<noteq> []"
      by (auto simp: prefix_def)
    with Cons.prems(2) obtain a1 where a1: "a' = c # a1" "cs = a1 @ p @ b'"
      by (cases a') auto
    from Cons.IH[OF a0(1) a1(2)] a0(2) a1(1) show ?thesis by simp
  qed
qed

lemma find_sub_None: "find_sub p s = None \<Longrightarrow> s \<noteq> a @ p @ b"
proof (induction s arbitrary: a)
  case Nil
  then show ?case by (simp split: if_splits)
next
  case (Cons c cs)
  from Cons.prems have np: "\<not> prefix p (c # cs)" and rest: "find_sub p cs = None"
    by (auto split: if_splits)
  show ?case
  proof
    assume eq: "c # cs = a @ p @ b"
    show False
    proof (cases a)
      case Nil
      with eq np show False by (simp add: prefix_def)
    next
      case (Cons x a1)
      with eq have "cs = a1 @ p @ b" by simp
      with Cons.IH[OF rest, of a1] show False by simp
    qed
  qed
qed

lemma first_occurrence_iff: "first_occurrence p s a b \<longleftrightarrow> find_sub p s = Some (a, b)"
proof
  assume "find_sub p s = Some (a, b)"
  then show "first_occurrence p s a b"
    unfolding first_occurrence_def
    using find_sub_append find_sub_first by blast
next
  assume f: "first_occurrence p s a b"
  then have s: "s = a @ p @ b" and least: "\<And>a' b'. s = a' @ p @ b' \<Longrightarrow> length a \<le> length a'"
    by (auto simp: first_occurrence_def)
  from s find_sub_None[of p s a b] obtain a0 b0 where found: "find_sub p s = Some (a0, b0)"
    by (cases "find_sub p s") auto
  then have s0: "s = a0 @ p @ b0"
    by (rule find_sub_append)
  from find_sub_first[OF found s] least[OF s0] have "length a0 = length a"
    by simp
  with s s0 have "a0 = a" "b0 = b"
    by (auto simp: append_eq_append_conv)
  with found show "find_sub p s = Some (a, b)" by simp
qed

lemma has_section_iff:
  "has_section sid content \<longleftrightarrow>
     (\<exists>a rest. find_sub (start_tag sid) content = Some (a, rest) \<and> find_sub (end_tag sid) rest \<noteq> None)"
proof
  assume "has_section sid content"
  then obtain a m b where c: "content = a @ start_tag sid @ m @ end_tag sid @ b"
    by (auto simp: has_section_def)
  then obtain a0 rest where found: "find_sub (start_tag sid) content = Some (a0, rest)"
    using find_sub_None[of "start_tag sid" content a "m @ end_tag sid @ b"]
    by (cases "find_sub (start_tag sid) content") auto
  then have c0: "content = a0 @ start_tag sid @ rest"
    by (rule find_sub_append)
  from find_sub_first[OF found c] have le: "length a0 \<le> length a" .
  from c c0 have "a0 @ start_tag sid @ rest = a @ start_tag sid @ m @ end_tag sid @ b"
    by simp
  with le obtain u where "a = a0 @ u"
    by (metis append_eq_append_conv_if append_take_drop_id)
  with c c0 have "start_tag sid @ rest = u @ start_tag sid @ m @ end_tag sid @ b"
    by simp
  then have "rest = drop (length (start_tag sid)) (u @ start_tag sid @ m @ end_tag sid @ b)"
    by (metis append_eq_conv_conj)
  also have "\<dots> = drop (length (start_tag sid)) (u @ start_tag sid @ m) @ end_tag sid @ b"
    by simp
  finally have "find_sub (end_tag sid) rest \<noteq> None"
    using find_sub_None[of "end_tag sid" rest _ b] by (metis append_assoc)
  with found show "\<exists>a rest. find_sub (start_tag sid) content = Some (a, rest)
      \<and> find_sub (end_tag sid) rest \<noteq> None"
    by blast
next
  assume "\<exists>a rest. find_sub (start_tag sid) content = Some (a, rest)
      \<and> find_sub (end_tag sid) rest \<noteq> None"
  then obtain a rest m b where "find_sub (start_tag sid) content = Some (a, rest)"
    "find_sub (end_tag sid) rest = Some (m, b)"
    by auto
  then have "content = a @ start_tag sid @ rest" "rest = m @ end_tag sid @ b"
    by (simp_all add: find_sub_append)
  then show "has_section sid content"
    by (auto simp: has_section_def)
qed

lemma re_sub_no_section: "\<not> has_section sid content \<Longrightarrow> re_sub sid tmpl content = content"
  by (subst re_sub.simps) (auto simp: has_section_iff split: option.splits)

lemma re_sub_section:
  assumes "first_occurrence (start_tag sid) content before rest"
    and "first_occurrence (end_tag sid) rest between after"
  shows "re_sub sid tmpl content
           = before @ expand tmpl (start_tag sid @ between @ end_tag sid) (strip_space between)
               @ re_sub sid tmpl after"
  using assms by (subst re_sub.simps) (simp add: first_occurrence_iff)

lemma parse_template_literal:
  "backslash \<notin> set t \<Longrightarrow> parse_template t = Inr (map (\<lambda>c. Lit [c]) t)"
  by (induction t) (auto simp: addliteral_def)

lemma expand_literal: "expand (map (\<lambda>c. Lit [c]) t) g0 g1 = t"
  by (induction t) simp_all

lemma tags_no_backslash:
  "backslash \<notin> set sid \<Longrightarrow> backslash \<notin> set (start_tag sid) \<and> backslash \<notin> set (end_tag sid)"
  by (auto simp: start_tag_def end_tag_def backslash_def)

lemma updated_content_literal:
  assumes "backslash \<notin> set new_graph" "backslash \<notin> set sid"
  shows "updated_content content new_graph sid
           = Inr (re_sub sid (map (\<lambda>c. Lit [c])
                   (start_tag sid @ [CHR 0x0A] @ new_graph @ [CHR 0x0A] @ end_tag sid)) content)"
proof -
  from assms tags_no_backslash[OF assms(2)]
  have "backslash \<notin> set (start_tag sid @ [CHR 0x0A] @ new_graph @ [CHR 0x0A] @ end_tag sid)"
    by (auto simp: backslash_def)
  then show ?thesis
    by (simp add: updated_content_def parse_template_literal del: append_assoc)
qed

text \<open>
  Claim C4, amended. For a tag name and new content without a backslash: in a text whose
  first start marker is followed by an end marker, the region from that start marker to
  the first end marker after it is replaced by the start marker, a newline, the new
  content, a newline and the end marker; the text before it is kept as it is; and the
  text after it is updated in the same way, so that a later marker pair is replaced as
  well, and a rest without a marker pair is kept as it is.
\<close>

theorem updated_content_replaces_sections:
  assumes "backslash \<notin> set new_graph" and "backslash \<notin> set section_identifier"
    and "first_occurrence (start_tag section_identifier) content before rest"
    and "first_occurrence (end_tag section_identifier) rest between after"
  shows "\<exists>after'. updated_content after new_graph section_identifier = Inr after'
           \<and> updated_content content new_graph section_identifier
               = Inr (before @ start_tag section_identifier @ [CHR 0x0A] @ new_graph @ [CHR 0x0A]
                        @ end_tag section_identifier @ after')
           \<and> (\<not> has_section section_identifier after \<longrightarrow> after' = after)"
proof -
  let ?tmpl = "map (\<lambda>c. Lit [c]) (start_tag section_identifier @ [CHR 0x0A] @ new_graph @ [CHR 0x0A]
                 @ end_tag section_identifier)"
  have 1: "updated_content after new_graph section_identifier
             = Inr (re_sub section_identifier ?tmpl after)"
    using assms(1,2) by (rule updated_content_literal)
  have "updated_content content new_graph section_identifier
          = Inr (re_sub section_identifier ?tmpl content)"
    using assms(1,2) by (rule updated_content_literal)
  also have "re_sub section_identifier ?tmpl content
          = before @ (start_tag section_identifier @ [CHR 0x0A] @ new_graph @ [CHR 0x0A]
                 @ end_tag section_identifier) @ re_sub section_identifier ?tmpl after"
    unfolding re_sub_section[OF assms(3,4)] expand_literal ..
  finally have 2: "updated_content content new_graph section_identifier
               = Inr (before @ start_tag section_identifier @ [CHR 0x0A] @ new_graph @ [CHR 0x0A]
                        @ end_tag section_identifier @ re_sub section_identifier ?tmpl after)"
    by simp
  from 1 2 re_sub_no_section[of section_identifier after ?tmpl] show ?thesis
    by auto
qed

lemma updated_two_sections:
  "updated_content two_sections ''N'' ''d''
     = Inr (''a'' @ start_tag ''d'' @ [CHR 0x0A] @ ''N'' @ [CHR 0x0A] @ end_tag ''d'' @ ''b''
              @ start_tag ''d'' @ [CHR 0x0A] @ ''N'' @ [CHR 0x0A] @ end_tag ''d'' @ ''c'')"
  by (simp add: updated_content_def two_sections_def start_tag_def end_tag_def backslash_def
      addliteral_def re_sub.simps)

text \<open>
  Claim C4 says that only the first marked region is replaced and that a later marker
  pair stays as it is. \<^verbatim>\<open>re.sub\<close> replaces every match: in a document with two marked
  sections the second one is replaced too.
\<close>

theorem later_sections_replaced_counterexample:
  "updated_content two_sections ''N'' ''d''
     = Inr (''a'' @ start_tag ''d'' @ [CHR 0x0A] @ ''N'' @ [CHR 0x0A] @ end_tag ''d'' @ ''b''
              @ start_tag ''d'' @ [CHR 0x0A] @ ''N'' @ [CHR 0x0A] @ end_tag ''d'' @ ''c'')
   \<and> updated_content two_sections ''N'' ''d''
     \<noteq> Inr (''a'' @ start_tag ''d'' @ [CHR 0x0A] @ ''N'' @ [CHR 0x0A] @ end_tag ''d'' @ ''b''
              @ start_tag ''d'' @ ''y'' @ end_tag ''d'' @ ''c'')"
  by (simp add: updated_two_sections)

theorem updated_content_replaces_sections_witness:
  "first_occurrence (start_tag ''d'') two_sections ''a''
       (''x'' @ end_tag ''d'' @ ''b'' @ start_tag ''d'' @ ''y'' @ end_tag ''d'' @ ''c'')
   \<and> first_occurrence (end_tag ''d'')
       (''x'' @ end_tag ''d'' @ ''b'' @ start_tag ''d'' @ ''y'' @ end_tag ''d'' @ ''c'') ''x''
       (''b'' @ start_tag ''d'' @ ''y'' @ end_tag ''d'' @ ''c'')
   \<and> (\<exists>after'. updated_content (''b'' @ start_tag ''d'' @ ''y'' @ end_tag ''d'' @ ''c'') ''N'' ''d''
                   = Inr after'
          \<and> updated_content two_sections ''N'' ''d''
              = Inr (''a'' @ start_tag ''d'' @ [CHR 0x0A] @ ''N'' @ [CHR 0x0A] @ end_tag ''d'' @ after'))"
proof -
  have h1: "backslash \<notin> set ''N''" and h2: "backslash \<notin> set ''d''"
    by (simp_all add: backslash_def)
  have h3: "first_occurrence (start_tag ''d'') two_sections ''a''
       (''x'' @ end_tag ''d'' @ ''b'' @ start_tag ''d'' @ ''y'' @ end_tag ''d'' @ ''c'')"
    by (simp add: first_occurrence_iff two_sections_def start_tag_def end_tag_def)
  have h4: "first_occurrence (end_tag ''d'')
       (''x'' @ end_tag ''d'' @ ''b'' @ start_tag ''d'' @ ''y'' @ end_tag ''d'' @ ''c'') ''x''
       (''b'' @ start_tag ''d'' @ ''y'' @ end_tag ''d'' @ ''c'')"
    by (simp add: first_occurrence_iff start_tag_def end_tag_def)
  from updated_content_replaces_sections[OF h1 h2 h3 h4] h3 h4 show ?thesis
    by blast
qed

text \<open>
  Claim C9. The new graph is handed to \<^verbatim>\<open>re.sub\<close> as a replacement template, which is
  compiled before the search. On a document without any marker pair, a new graph
  holding a backslash sequence that is no template escape makes \<^verbatim>\<open>re.sub\<close> raise; the
  exception is not caught, where the claim promises a no-op that is not an error.
\<close>

theorem update_mermaid_graph_bad_escape_raises:
  "\<not> has_section ''diagram'' ''# Flow''
   \<and> update_mermaid_graph readme ''README.md'' (''A(Sales'' @ [CHR 0x5C] @ ''Queue)'') ''diagram''
       = \<lparr>files = readme, printed = [], raised = Some ReError\<rparr>"
  by (simp add: has_section_iff update_mermaid_graph_def updated_content_def readme_def
      start_tag_def end_tag_def backslash_def addliteral_def is_digit_def ord_def escapes_def
      is_ascii_letter_def)

text \<open>
  What holds of the claim: a missing file is reported and nothing is raised; for a
  document without a marker pair, nothing but its line ends is changed (the file is
  written back as it was read), and for a tag name and new content without a backslash
  the call returns normally.
\<close>

lemma update_mermaid_graph_not_found:
  "fs filename = None \<Longrightarrow>
     update_mermaid_graph fs filename new_graph sid
       = \<lparr>files = fs,
          printed = [''Error: File '' @ [CHR 0x27] @ filename @ [CHR 0x27] @ '' not found.''],
          raised = None\<rparr>"
  by (simp add: update_mermaid_graph_def)

lemma universal_newlines_id: "CHR 0x0D \<notin> set s \<Longrightarrow> universal_newlines s = s"
  by (induction s rule: universal_newlines.induct) auto

lemma update_mermaid_graph_no_section:
  assumes "fs filename = Some stored" and "\<not> has_section sid (universal_newlines stored)"
  shows "files (update_mermaid_graph fs filename new_graph sid) filename
           = Some (if raised (update_mermaid_graph fs filename new_graph sid) = None
                   then universal_newlines stored else stored)"
    and "backslash \<notin> set new_graph \<Longrightarrow> backslash \<notin> set sid \<Longrightarrow>
           update_mermaid_graph fs filename new_graph sid
             = \<lparr>files = fs(filename \<mapsto> universal_newlines stored), printed = [], raised = None\<rparr>"
proof -
  show "files (update_mermaid_graph fs filename new_graph sid) filename
           = Some (if raised (update_mermaid_graph fs filename new_graph sid) = None
                   then universal_newlines stored else stored)"
    using assms
    by (auto simp: update_mermaid_graph_def updated_content_def re_sub_no_section split: sum.splits)
  show "update_mermaid_graph fs filename new_graph sid
          = \<lparr>files = fs(filename \<mapsto> universal_newlines stored), printed = [], raised = None\<rparr>"
    if "backslash \<notin> set new_graph" "backslash \<notin> set sid"
    using assms updated_content_literal[OF that, of "universal_newlines stored"]
    by (simp add: update_mermaid_graph_def re_sub_no_section)
qed

end
